theory Spec2Isabelle
  imports Main "HOL-Library.Sublist"
begin

section \<open>Text\<close>

text \<open>
  A Python \<open>str\<close> is a sequence of Unicode code points; a code point is a natural
  number.  \<open>ch\<close> is the code point of an ASCII character and \<open>py\<close> turns an ASCII
  literal into such a sequence.
\<close>

type_synonym uchar = nat
type_synonym pystr = "uchar list"

definition ch :: "char \<Rightarrow> uchar" where
  "ch c = of_char c"

definition py :: "string \<Rightarrow> pystr" where
  "py s = map ch s"

definition newline :: uchar where
  "newline = 10"

text \<open>The bullet glyph U+2022.\<close>

definition bullet :: uchar where
  "bullet = 8226"

text \<open>
  Whitespace as \<open>str.isspace\<close>, \<open>str.rstrip\<close> and the class \<open>\s\<close> of a \<open>str\<close>
  pattern see it: U+0009..U+000D, U+001C..U+0020, U+0085, U+00A0, U+1680,
  U+2000..U+200A, U+2028, U+2029, U+202F, U+205F and U+3000.
\<close>

definition isspace :: "uchar \<Rightarrow> bool" where
  "isspace c \<longleftrightarrow>
     (9 \<le> c \<and> c \<le> 13) \<or> (28 \<le> c \<and> c \<le> 32) \<or> c = 133 \<or> c = 160 \<or> c = 5760 \<or>
     (8192 \<le> c \<and> c \<le> 8202) \<or> c = 8232 \<or> c = 8233 \<or> c = 8239 \<or> c = 8287 \<or> c = 12288"

text \<open>
  Case folding as \<open>re.IGNORECASE\<close> applies it when the pattern character is an ASCII
  one: the 26 capital letters fold to the small ones, and so do the four non-ASCII
  letters that the \<open>re\<close> documentation lists: U+0130 and U+0131 fold to \<open>i\<close>, U+017F to
  \<open>s\<close> and U+212A to \<open>k\<close>.
\<close>

definition lower_fold :: "uchar \<Rightarrow> uchar" where
  "lower_fold c =
     (if 65 \<le> c \<and> c \<le> 90 then c + 32
      else if c = 304 \<or> c = 305 then 105
      else if c = 383 then 115
      else if c = 8490 then 107
      else c)"

text \<open>
  A word character (\<open>\w\<close>) is an alphanumeric character or the underscore.  On ASCII
  that is decided here; beyond ASCII it is the table of the Unicode database behind
  \<open>str.isalnum\<close>, which every function below takes as its parameter \<open>W\<close>.
\<close>

definition isword :: "(uchar \<Rightarrow> bool) \<Rightarrow> uchar \<Rightarrow> bool" where
  "isword W c \<longleftrightarrow>
     (if c < 128
      then (48 \<le> c \<and> c \<le> 57) \<or> (65 \<le> c \<and> c \<le> 90) \<or> c = 95 \<or> (97 \<le> c \<and> c \<le> 122)
      else W c)"

text \<open>The table that holds no alphanumeric character beyond ASCII, for concrete inputs.\<close>

definition ascii_only :: "uchar \<Rightarrow> bool" where
  "ascii_only c = False"

text \<open>\<open>str.rstrip()\<close>, \<open>str.endswith\<close>, \<open>str.split('\n')\<close> and \<open>'\n'.join\<close>.\<close>

definition rstrip :: "pystr \<Rightarrow> pystr" where
  "rstrip s = rev (dropWhile isspace (rev s))"

definition endswith :: "pystr \<Rightarrow> pystr \<Rightarrow> bool" where
  "endswith s e \<longleftrightarrow> length e \<le> length s \<and> drop (length s - length e) s = e"

fun split_nl :: "pystr \<Rightarrow> pystr list" where
  "split_nl [] = [[]]"
| "split_nl (c # s) =
     (if c = newline then [] # split_nl s
      else (case split_nl s of [] \<Rightarrow> [[c]] | l # ls \<Rightarrow> (c # l) # ls))"

fun join_nl :: "pystr list \<Rightarrow> pystr" where
  "join_nl [] = []"
| "join_nl [l] = l"
| "join_nl (l # ls) = l @ newline # join_nl ls"

section \<open>Regular expressions\<close>

text \<open>
  The part of Python's \<open>re\<close> that the patterns of \<open>ai_service.py\<close> use, as a
  backtracking matcher: alternatives are tried in the order of the \<open>re\<close> module
  (a greedy repetition takes as much as it can and gives back one character at a
  time; an optional part is tried first with the part, then without), and the first
  success is the match.
\<close>

datatype flag = IGNORECASE | MULTILINE

text \<open>One member of a bracketed class, and a pattern item that matches one character.\<close>

datatype citem = CLit uchar | CRng uchar uchar | CSpace

datatype atom = Lit uchar | Dot | Space | Cls "citem list"

fun lit_ok :: "flag list \<Rightarrow> uchar \<Rightarrow> uchar \<Rightarrow> bool" where
  "lit_ok fl c x = (if IGNORECASE \<in> set fl then lower_fold x = lower_fold c else x = c)"

fun citem_ok :: "flag list \<Rightarrow> citem \<Rightarrow> uchar \<Rightarrow> bool" where
  "citem_ok fl (CLit c) x = lit_ok fl c x"
| "citem_ok fl (CRng a b) x =
     (if IGNORECASE \<in> set fl then list_ex (\<lambda>c. lower_fold x = lower_fold c) [a ..< Suc b]
      else a \<le> x \<and> x \<le> b)"
| "citem_ok fl CSpace x = isspace x"

fun atom_ok :: "flag list \<Rightarrow> atom \<Rightarrow> uchar \<Rightarrow> bool" where
  "atom_ok fl (Lit c) x = lit_ok fl c x"
| "atom_ok fl Dot x = (x \<noteq> newline)"
| "atom_ok fl Space x = isspace x"
| "atom_ok fl (Cls cs) x = list_ex (\<lambda>i. citem_ok fl i x) cs"

text \<open>
  Pattern items.  \<open>Grp n\<close> is the \<open>n\<close>-th capturing group; \<open>Close n k\<close> is what the
  matcher leaves behind a group it has entered, \<open>k\<close> being the number of characters
  matched before the group, and occurs in no pattern.
\<close>

datatype rx =
    One atom
  | Star atom
  | Plus atom
  | Opt "rx list"
  | Grp nat "rx list"
  | Bol
  | Eol
  | Wordb
  | Close nat nat

fun rsize :: "rx \<Rightarrow> nat" where
  "rsize (One a) = 1"
| "rsize (Star a) = 1"
| "rsize (Plus a) = 3"
| "rsize (Opt xs) = Suc (sum_list (map rsize xs))"
| "rsize (Grp n xs) = Suc (Suc (sum_list (map rsize xs)))"
| "rsize Bol = 1"
| "rsize Eol = 1"
| "rsize Wordb = 1"
| "rsize (Close n k) = 1"

text \<open>The assertions \<open>^\<close>, \<open>$\<close> and \<open>\b\<close>, from the character before the position and the text after it.\<close>

definition next_char :: "pystr \<Rightarrow> uchar option" where
  "next_char s = (case s of [] \<Rightarrow> None | c # _ \<Rightarrow> Some c)"

definition at_bol :: "flag list \<Rightarrow> uchar option \<Rightarrow> bool" where
  "at_bol fl p \<longleftrightarrow> p = None \<or> (MULTILINE \<in> set fl \<and> p = Some newline)"

definition at_eol :: "flag list \<Rightarrow> pystr \<Rightarrow> bool" where
  "at_eol fl s \<longleftrightarrow>
     s = [] \<or> s = [newline] \<or> (MULTILINE \<in> set fl \<and> next_char s = Some newline)"

definition wordp :: "(uchar \<Rightarrow> bool) \<Rightarrow> uchar option \<Rightarrow> bool" where
  "wordp W p = (case p of None \<Rightarrow> False | Some c \<Rightarrow> isword W c)"


definition at_wordb :: "(uchar \<Rightarrow> bool) \<Rightarrow> uchar option \<Rightarrow> pystr \<Rightarrow> bool" where
  "at_wordb W p s \<longleftrightarrow> wordp W p \<noteq> wordp W (next_char s)"

type_synonym groups = "(nat \<times> pystr) list"

text \<open>
  \<open>bt W fl items p s m g\<close> matches the items in sequence at a position where \<open>p\<close> is the
  character before, \<open>s\<close> the text after, \<open>m\<close> the text matched so far and \<open>g\<close> the groups
  closed so far (the latest first); it returns the whole matched text and the groups.
\<close>

function bt :: "(uchar \<Rightarrow> bool) \<Rightarrow> flag list \<Rightarrow> rx list \<Rightarrow> uchar option \<Rightarrow> pystr \<Rightarrow> pystr \<Rightarrow> groups
    \<Rightarrow> (pystr \<times> groups) option" where
  "bt W fl [] p s m g = Some (m, g)"
| "bt W fl (One a # r) p [] m g = None"
| "bt W fl (One a # r) p (c # s) m g =
     (if atom_ok fl a c then bt W fl r (Some c) s (m @ [c]) g else None)"
| "bt W fl (Star a # r) p [] m g = bt W fl r p [] m g"
| "bt W fl (Star a # r) p (c # s) m g =
     (if atom_ok fl a c
      then (case bt W fl (Star a # r) (Some c) s (m @ [c]) g of
              Some res \<Rightarrow> Some res
            | None \<Rightarrow> bt W fl r p (c # s) m g)
      else bt W fl r p (c # s) m g)"
| "bt W fl (Plus a # r) p s m g = bt W fl (One a # Star a # r) p s m g"
| "bt W fl (Opt xs # r) p s m g =
     (case bt W fl (xs @ r) p s m g of
        Some res \<Rightarrow> Some res
      | None \<Rightarrow> bt W fl r p s m g)"
| "bt W fl (Grp n xs # r) p s m g = bt W fl (xs @ Close n (length m) # r) p s m g"
| "bt W fl (Close n k # r) p s m g = bt W fl r p s m ((n, drop k m) # g)"
| "bt W fl (Bol # r) p s m g = (if at_bol fl p then bt W fl r p s m g else None)"
| "bt W fl (Eol # r) p s m g = (if at_eol fl s then bt W fl r p s m g else None)"
| "bt W fl (Wordb # r) p s m g = (if at_wordb W p s then bt W fl r p s m g else None)"
  by pat_completeness auto
termination
  by (relation "measures [\<lambda>(W, fl, r, p, s, m, g). length s,
                          \<lambda>(W, fl, r, p, s, m, g). sum_list (map rsize r)]") auto

text \<open>A replacement template: literal text and group references \<open>\n\<close>.\<close>

datatype rpiece = RLit pystr | RGrp nat

fun expand :: "rpiece list \<Rightarrow> groups \<Rightarrow> pystr" where
  "expand [] g = []"
| "expand (RLit t # r) g = t @ expand r g"
| "expand (RGrp n # r) g = (case map_of g n of None \<Rightarrow> [] | Some t \<Rightarrow> t) @ expand r g"

text \<open>
  \<open>re.match\<close> tries the pattern at the start of the text, \<open>re.search\<close> at every
  position from the left, and \<open>re.sub\<close> replaces the matches it finds from the left,
  resuming behind each one.  \<open>sub_scan\<close> walks the text; its first number is how many
  characters of the match just replaced are still to be skipped.
\<close>

definition re_match :: "(uchar \<Rightarrow> bool) \<Rightarrow> rx list \<Rightarrow> pystr \<Rightarrow> flag list \<Rightarrow> (pystr \<times> groups) option" where
  "re_match W pattern s fl = bt W fl pattern None s [] []"

fun search_scan :: "(uchar \<Rightarrow> bool) \<Rightarrow> flag list \<Rightarrow> rx list \<Rightarrow> uchar option \<Rightarrow> pystr
    \<Rightarrow> (pystr \<times> groups) option" where
  "search_scan W fl pattern p [] = bt W fl pattern p [] [] []"
| "search_scan W fl pattern p (c # s) =
     (case bt W fl pattern p (c # s) [] [] of
        Some res \<Rightarrow> Some res
      | None \<Rightarrow> search_scan W fl pattern (Some c) s)"

definition re_search :: "(uchar \<Rightarrow> bool) \<Rightarrow> rx list \<Rightarrow> pystr \<Rightarrow> flag list \<Rightarrow> (pystr \<times> groups) option" where
  "re_search W pattern s fl = search_scan W fl pattern None s"

fun sub_scan :: "(uchar \<Rightarrow> bool) \<Rightarrow> flag list \<Rightarrow> rx list \<Rightarrow> rpiece list \<Rightarrow> nat \<Rightarrow> uchar option
    \<Rightarrow> pystr \<Rightarrow> pystr" where
  "sub_scan W fl pattern repl k p [] =
     (case bt W fl pattern p [] [] [] of
        Some (m, g) \<Rightarrow> expand repl g
      | None \<Rightarrow> [])"
| "sub_scan W fl pattern repl (Suc k) p (c # s) = sub_scan W fl pattern repl k (Some c) s"
| "sub_scan W fl pattern repl 0 p (c # s) =
     (case bt W fl pattern p (c # s) [] [] of
        Some (m, g) \<Rightarrow>
          (if m = [] then expand repl g @ c # sub_scan W fl pattern repl 0 (Some c) s
           else expand repl g @ sub_scan W fl pattern repl (length m - 1) (Some c) s)
      | None \<Rightarrow> c # sub_scan W fl pattern repl 0 (Some c) s)"

definition re_sub :: "(uchar \<Rightarrow> bool) \<Rightarrow> rx list \<Rightarrow> rpiece list \<Rightarrow> pystr \<Rightarrow> flag list \<Rightarrow> pystr" where
  "re_sub W pattern repl s fl = sub_scan W fl pattern repl 0 None s"

text \<open>A literal string as a pattern (what \<open>re.escape\<close> of it matches).\<close>

definition lits :: "string \<Rightarrow> rx list" where
  "lits s = map (\<lambda>c. One (Lit (ch c))) s"

definition lit :: "char \<Rightarrow> atom" where
  "lit c = Lit (ch c)"

section \<open>The post-processing stages of \<open>AIService\<close>\<close>

subsection \<open>\<open>_fix_common_errors\<close>\<close>

definition sep :: atom where
  "sep = Cls [CLit (ch CHR ''.''), CSpace]"

definition error_pattern1 :: "rx list" where
  "error_pattern1 =
     [Wordb, One (lit CHR ''M''), Star sep, One (lit CHR ''x''), One (lit CHR ''L''), Wordb]"

definition error_pattern2 :: "rx list" where
  "error_pattern2 =
     [Wordb, One (lit CHR ''M''), Star sep, One (lit CHR ''x''), Star Space, One (lit CHR ''L''), Wordb]"

definition error_pattern3 :: "rx list" where
  "error_pattern3 =
     [Wordb, Grp 1 [One (Cls [CRng (ch CHR ''A'') (ch CHR ''Z'')])], Star sep,
      One (lit CHR ''x''), One (lit CHR ''L''), Wordb]"

definition patterns_to_fix :: "(rx list \<times> rpiece list) list" where
  "patterns_to_fix =
     [(error_pattern1, [RLit (py ''MBL'')]),
      (error_pattern2, [RLit (py ''MBL'')]),
      (error_pattern3, [RGrp 1, RLit (py ''BL'')])]"

definition fix_common_errors :: "(uchar \<Rightarrow> bool) \<Rightarrow> pystr \<Rightarrow> pystr" where
  "fix_common_errors W text =
     foldl (\<lambda>t (pattern, replacement). re_sub W pattern replacement t [IGNORECASE])
       text patterns_to_fix"

subsection \<open>\<open>_fix_bullet_format\<close>\<close>

definition bullet_pattern :: "rx list" where
  "bullet_pattern =
     [Bol, Grp 1 [Star Space], Grp 2 [One (Cls [CLit (ch CHR ''-''), CLit bullet])],
      Plus Space, Grp 3 [Plus Dot], Eol]"

text \<open>
  The body of the loop over the lines.  \<open>match.group(3)\<close> is never \<open>None\<close> after a match
  (lemma \<open>bullet_group3\<close> below), so the last case is never taken.
\<close>

definition fix_bullet_line :: "(uchar \<Rightarrow> bool) \<Rightarrow> pystr \<Rightarrow> pystr" where
  "fix_bullet_line W line =
     (case re_match W bullet_pattern line [] of
        Some (m, g) \<Rightarrow> (case map_of g 3 of Some content \<Rightarrow> py '' -  '' @ content | None \<Rightarrow> line)
      | None \<Rightarrow> line)"

definition fix_bullet_format :: "(uchar \<Rightarrow> bool) \<Rightarrow> pystr \<Rightarrow> pystr" where
  "fix_bullet_format W text = join_nl (map (fix_bullet_line W) (split_nl text))"

subsection \<open>\<open>_format_section_headers\<close>\<close>

definition section_headers :: "string list" where
  "section_headers = [''Attendees'', ''Action Items'', ''General Notes'', ''Personal'']"

definition header_pattern1 :: "string \<Rightarrow> rx list" where
  "header_pattern1 header = [Bol, Grp 1 (lits header), One (lit CHR '':'')]"

definition header_pattern2 :: "string \<Rightarrow> rx list" where
  "header_pattern2 header = [Bol, Grp 1 (lits header), Eol]"

definition header_pattern3 :: "string \<Rightarrow> rx list" where
  "header_pattern3 header = [One (Lit newline), Grp 1 (lits header), One (lit CHR '':'')]"

definition header_pattern4 :: "string \<Rightarrow> rx list" where
  "header_pattern4 header = [One (Lit newline), Grp 1 (lits header), One (Lit newline)]"

definition header_patterns :: "string \<Rightarrow> rx list list" where
  "header_patterns header =
     [header_pattern1 header, header_pattern2 header, header_pattern3 header, header_pattern4 header]"

definition wrapped_pattern :: "string \<Rightarrow> rx list" where
  "wrapped_pattern header = lits ''**'' @ lits header @ lits ''**''"

definition header_replacement :: "rpiece list" where
  "header_replacement = [RLit (py ''**''), RGrp 1, RLit (py ''**'')]"

text \<open>The body of the loop over the headers: the loop over the four patterns of one header.\<close>

definition format_header :: "(uchar \<Rightarrow> bool) \<Rightarrow> pystr \<Rightarrow> string \<Rightarrow> pystr" where
  "format_header W text header =
     foldl (\<lambda>t pattern.
        if re_search W (wrapped_pattern header) t [IGNORECASE, MULTILINE] = None
        then re_sub W pattern header_replacement t [MULTILINE, IGNORECASE]
        else t)
       text (header_patterns header)"

definition format_section_headers :: "(uchar \<Rightarrow> bool) \<Rightarrow> pystr \<Rightarrow> pystr" where
  "format_section_headers W text = foldl (format_header W) text section_headers"

subsection \<open>\<open>_add_signature\<close>\<close>

definition signature_pattern :: "rx list" where
  "signature_pattern =
     [Opt [Grp 1 (lits ''signature'' @ [Star Space, Opt [One (lit CHR '':'')], Star Space])]]
     @ lits ''michael''"

definition add_signature :: "(uchar \<Rightarrow> bool) \<Rightarrow> pystr \<Rightarrow> pystr" where
  "add_signature W text =
     (if re_search W signature_pattern text [IGNORECASE] \<noteq> None then text
      else
        let text = rstrip text;
            text = (if \<not> endswith text (py ''\<newline>\<newline>'')
                    then (if \<not> endswith text (py ''\<newline>'') then text @ py ''\<newline>\<newline>''
                          else text @ py ''\<newline>'')
                    else text)
        in text @ py ''Michael'')"

subsection \<open>The pipeline of \<open>extract_text_from_base64_images\<close>\<close>

definition normalize_text :: "(uchar \<Rightarrow> bool) \<Rightarrow> pystr \<Rightarrow> pystr" where
  "normalize_text W combined_text =
     add_signature W (fix_bullet_format W (format_section_headers W (fix_common_errors W combined_text)))"

section \<open>Notions used in the statements\<close>

text \<open>
  \<open>lastp p w\<close> is the character before the position reached from one with \<open>p\<close> before
  it by reading \<open>w\<close>.  \<open>prefix_ci w t\<close>: the text \<open>t\<close> starts with \<open>w\<close> up to case;
  \<open>contains_ci w t\<close>: \<open>w\<close> occurs in \<open>t\<close> up to case; \<open>count_ci w t\<close>: at how many places.
\<close>


definition lastp :: "uchar option \<Rightarrow> pystr \<Rightarrow> uchar option" where
  "lastp p w = (if w = [] then p else Some (last w))"

definition prefix_ci :: "pystr \<Rightarrow> pystr \<Rightarrow> bool" where
  "prefix_ci w t \<longleftrightarrow> length w \<le> length t \<and> map lower_fold (take (length w) t) = map lower_fold w"

fun contains_ci :: "pystr \<Rightarrow> pystr \<Rightarrow> bool" where
  "contains_ci w [] = (w = [])"
| "contains_ci w (c # t) = (prefix_ci w (c # t) \<or> contains_ci w t)"

fun count_ci :: "pystr \<Rightarrow> pystr \<Rightarrow> nat" where
  "count_ci w [] = (if w = [] then 1 else 0)"
| "count_ci w (c # t) = (if prefix_ci w (c # t) then 1 else 0) + count_ci w t"

text \<open>
  The bullet pattern \<open>^(\s*)([-\<bullet>])\s+(.+)$\<close> read as the specification reads it: the line
  is some whitespace, a marker, some whitespace (at least one character) and a content
  of at least one character.  \<open>bullet_content\<close> is the content that the greedy
  repetitions select.
\<close>

definition spec_bullet_match :: "pystr \<Rightarrow> pystr \<Rightarrow> uchar \<Rightarrow> pystr \<Rightarrow> pystr \<Rightarrow> bool" where
  "spec_bullet_match line ind mk gap content \<longleftrightarrow>
     line = ind @ mk # gap @ content \<and> list_all isspace ind \<and>
     (mk = ch CHR ''-'' \<or> mk = bullet) \<and>
     gap \<noteq> [] \<and> list_all isspace gap \<and> content \<noteq> [] \<and> list_all (\<lambda>c. c \<noteq> newline) content"

definition bullet_content :: "pystr \<Rightarrow> pystr option" where
  "bullet_content line =
     (case dropWhile isspace line of
        [] \<Rightarrow> None
      | mk # r \<Rightarrow>
          if mk = ch CHR ''-'' \<or> mk = bullet
          then (case r of
                  [] \<Rightarrow> None
                | x # s \<Rightarrow>
                    if isspace x \<and> s \<noteq> []
                    then Some (if dropWhile isspace s = [] then [last s] else dropWhile isspace s)
                    else None)
          else None)"

text \<open>
  Header lines.  \<open>wrapped K t\<close>: the header \<open>K\<close> occurs in \<open>t\<close> between \<open>**\<close> and \<open>**\<close>, up
  to case.  A line is a \<open>colon_line\<close> of \<open>K\<close> when it starts with \<open>K\<close> and a colon, an
  \<open>alone_line\<close> when it is \<open>K\<close>, both up to case.  \<open>line_sub M repl\<close> replaces what \<open>M\<close>
  matches at the start of a line, and \<open>header_line K colon\<close> is what the first pattern
  of \<open>_format_section_headers\<close> (\<open>colon\<close> true) or its second one (\<open>colon\<close> false)
  makes of a line.
\<close>

definition wrapped :: "string \<Rightarrow> pystr \<Rightarrow> bool" where
  "wrapped K t \<longleftrightarrow> contains_ci (py ''**'' @ py K @ py ''**'') t"

definition plain_header :: "string \<Rightarrow> bool" where
  "plain_header K \<longleftrightarrow>
     K \<noteq> [] \<and> (\<forall>c \<in> set (py K). lower_fold c \<noteq> newline \<and> lower_fold c \<noteq> ch CHR ''*'')"

definition colon_line :: "string \<Rightarrow> pystr \<Rightarrow> bool" where
  "colon_line K l \<longleftrightarrow> prefix_ci (py K @ py '':'') l"

definition alone_line :: "string \<Rightarrow> pystr \<Rightarrow> bool" where
  "alone_line K l \<longleftrightarrow> length l = length K \<and> map lower_fold l = map lower_fold (py K)"

definition line_sub :: "(pystr \<Rightarrow> (pystr \<times> groups) option) \<Rightarrow> rpiece list \<Rightarrow> pystr \<Rightarrow> pystr" where
  "line_sub M repl l = (case M l of None \<Rightarrow> l | Some (m, g) \<Rightarrow> expand repl g @ drop (length m) l)"

definition header_line :: "string \<Rightarrow> bool \<Rightarrow> pystr \<Rightarrow> pystr" where
  "header_line K colon l =
     (if colon
      then (if colon_line K l
            then py ''**'' @ take (length K) l @ py ''**'' @ drop (Suc (length K)) l else l)
      else (if alone_line K l then py ''**'' @ l @ py ''**'' else l))"

definition colon_match :: "string \<Rightarrow> pystr \<Rightarrow> (pystr \<times> groups) option" where
  "colon_match K l =
     (if colon_line K l then Some (take (Suc (length K)) l, [(1, take (length K) l)]) else None)"

definition alone_match :: "string \<Rightarrow> pystr \<Rightarrow> (pystr \<times> groups) option" where
  "alone_match K l = (if alone_line K l then Some (l, [(1, l)]) else None)"

text \<open>
  \<open>text_before W t K\<close> is the text that the loop of \<open>_format_section_headers\<close> holds when
  it reaches the header \<open>K\<close>: the text \<open>t\<close> after the headers listed before \<open>K\<close> have been
  processed.  A line is \<open>starred\<close> when it begins with \<open>*\<close>.
\<close>

definition text_before :: "(uchar \<Rightarrow> bool) \<Rightarrow> pystr \<Rightarrow> string \<Rightarrow> pystr" where
  "text_before W t K = foldl (format_header W) t (takeWhile (\<lambda>h. h \<noteq> K) section_headers)"

definition starred :: "pystr \<Rightarrow> bool" where
  "starred l \<longleftrightarrow> l \<noteq> [] \<and> hd l = ch CHR ''*''"

text \<open>
  What the patterns of \<open>_fix_common_errors\<close> match behind their first letter:
  \<open>[.\s]*xL\b\<close> for the first and the third, \<open>[.\s]*x\s*L\b\<close> for the second.
\<close>

definition sepok :: "uchar \<Rightarrow> bool" where
  "sepok c \<longleftrightarrow> c = ch CHR ''.'' \<or> isspace c"

definition letter_ci :: "uchar \<Rightarrow> bool" where
  "letter_ci c \<longleftrightarrow> 97 \<le> lower_fold c \<and> lower_fold c \<le> 122"

definition xl_tail :: "(uchar \<Rightarrow> bool) \<Rightarrow> pystr \<Rightarrow> pystr option" where
  "xl_tail W s =
     (case dropWhile sepok s of
        x # l # r \<Rightarrow>
          if lower_fold x = ch CHR ''x'' \<and> lower_fold l = ch CHR ''l'' \<and> at_wordb W (Some l) r
          then Some (takeWhile sepok s @ [x, l]) else None
      | _ \<Rightarrow> None)"

definition x_l_tail :: "(uchar \<Rightarrow> bool) \<Rightarrow> pystr \<Rightarrow> pystr option" where
  "x_l_tail W s =
     (case dropWhile sepok s of
        x # s2 \<Rightarrow>
          if lower_fold x = ch CHR ''x''
          then (case dropWhile isspace s2 of
                  l # r \<Rightarrow>
                    if lower_fold l = ch CHR ''l'' \<and> at_wordb W (Some l) r
                    then Some (takeWhile sepok s @ x # takeWhile isspace s2 @ [l]) else None
                | [] \<Rightarrow> None)
          else None
      | [] \<Rightarrow> None)"

text \<open>
  Replacing matches from the left.  \<open>M p s\<close> tells whether a match starts at the position
  with the character \<open>p\<close> before it and the text \<open>s\<close> from it on, and if so what it
  reads and what is written for it.  \<open>rewrite_matches M p s\<close> goes through \<open>s\<close> from the
  left: where a match starts, its replacement is written and the scan resumes behind
  the match; any other character is copied.  The three passes of \<open>_fix_common_errors\<close>
  have the matches \<open>error_match1\<close>, \<open>error_match2\<close> and \<open>error_match3\<close>: a letter at a
  word boundary (\<open>m\<close> or \<open>M\<close> for the first two) and the tail described above.
\<close>

function rewrite_matches :: "(uchar option \<Rightarrow> pystr \<Rightarrow> (pystr \<times> pystr) option) \<Rightarrow> uchar option \<Rightarrow> pystr \<Rightarrow> pystr" where
  "rewrite_matches M p [] = []"
| "rewrite_matches M p (c # s) =
     (case M p (c # s) of
        None \<Rightarrow> c # rewrite_matches M (Some c) s
      | Some (m, r) \<Rightarrow> r @ rewrite_matches M (lastp (Some c) (tl m)) (drop (length (tl m)) s))"
  by pat_completeness auto
termination
  by (relation "measure (\<lambda>(M, p, s). length s)") auto

definition error_match1 :: "(uchar \<Rightarrow> bool) \<Rightarrow> uchar option \<Rightarrow> pystr \<Rightarrow> (pystr \<times> pystr) option" where
  "error_match1 W p s =
     (case s of
        [] \<Rightarrow> None
      | c # s1 \<Rightarrow>
          if at_wordb W p (c # s1) \<and> lower_fold c = ch CHR ''m''
          then map_option (\<lambda>w. (c # w, py ''MBL'')) (xl_tail W s1) else None)"

definition error_match2 :: "(uchar \<Rightarrow> bool) \<Rightarrow> uchar option \<Rightarrow> pystr \<Rightarrow> (pystr \<times> pystr) option" where
  "error_match2 W p s =
     (case s of
        [] \<Rightarrow> None
      | c # s1 \<Rightarrow>
          if at_wordb W p (c # s1) \<and> lower_fold c = ch CHR ''m''
          then map_option (\<lambda>w. (c # w, py ''MBL'')) (x_l_tail W s1) else None)"

definition error_match3 :: "(uchar \<Rightarrow> bool) \<Rightarrow> uchar option \<Rightarrow> pystr \<Rightarrow> (pystr \<times> pystr) option" where
  "error_match3 W p s =
     (case s of
        [] \<Rightarrow> None
      | c # s1 \<Rightarrow>
          if at_wordb W p (c # s1) \<and> letter_ci c
          then map_option (\<lambda>w. (c # w, c # py ''BL'')) (xl_tail W s1) else None)"

text \<open>
  The pattern of the Error Normalizer as the specification words it,
  \<open>\b([A-Z])[. ]*xL\b\<close>, with its replacement \<open>\1BL\<close>.
\<close>

definition spec_error_pattern :: "rx list" where
  "spec_error_pattern =
     [Wordb, Grp 1 [One (Cls [CRng (ch CHR ''A'') (ch CHR ''Z'')])],
      Star (Cls [CLit (ch CHR ''.''), CLit (ch CHR '' '')]),
      One (lit CHR ''x''), One (lit CHR ''L''), Wordb]"

definition spec_fix_common_errors :: "(uchar \<Rightarrow> bool) \<Rightarrow> pystr \<Rightarrow> pystr" where
  "spec_fix_common_errors W text =
     re_sub W spec_error_pattern [RGrp 1, RLit (py ''BL'')] text [IGNORECASE]"

text \<open>The pattern of the signature check as the specification words it.\<close>

definition spec_signature_pattern :: "rx list" where
  "spec_signature_pattern =
     [Opt [Grp 1 (lits ''signature'' @ [Opt [One (lit CHR '':'')], Star Space])]] @ lits ''michael''"

section \<open>The matcher\<close>

lemmas ev = ch_def py_def newline_def bullet_def isspace_def lower_fold_def isword_def ascii_only_def
  rstrip_def endswith_def at_bol_def at_eol_def wordp_def next_char_def at_wordb_def
  re_match_def re_search_def re_sub_def lits_def lit_def sep_def error_pattern1_def
  error_pattern2_def error_pattern3_def patterns_to_fix_def
  fix_common_errors_def bullet_pattern_def fix_bullet_line_def fix_bullet_format_def
  section_headers_def header_pattern1_def header_pattern2_def header_pattern3_def
  header_pattern4_def header_patterns_def wrapped_pattern_def header_replacement_def
  format_header_def format_section_headers_def signature_pattern_def add_signature_def
  normalize_text_def spec_signature_pattern_def prefix_ci_def spec_error_pattern_def
  spec_fix_common_errors_def

lemma lastp_simps [simp]: "lastp p [] = p" "lastp p (w @ [c]) = Some c" "lastp p (c # w) = lastp (Some c) w"
  by (auto simp: lastp_def)

lemma lastp_append: "lastp p (u @ v) = lastp (lastp p u) v"
  by (auto simp: lastp_def)

lemma bt_lits:
  "bt W fl (map (\<lambda>c. One (Lit c)) cs @ r) p t m g =
     (if length cs \<le> length t \<and> list_all2 (lit_ok fl) cs (take (length cs) t)
      then bt W fl r (lastp p (take (length cs) t)) (drop (length cs) t) (m @ take (length cs) t) g
      else None)"
proof (induction cs arbitrary: p t m g)
  case Nil
  then show ?case by simp
next
  case (Cons c cs)
  show ?case
  proof (cases t)
    case Nil
    then show ?thesis by simp
  next
    case (Cons x t')
    then show ?thesis using Cons.IH [of "Some x" t' "m @ [x]" g]
      by (simp del: lit_ok.simps)
  qed
qed

lemma lits_py: "lits s = map (\<lambda>c. One (Lit c)) (py s)"
  by (simp add: lits_def py_def ch_def)

lemma search_scan_None_iff:
  "search_scan W fl pat p t = None \<longleftrightarrow>
     (\<forall>pre post. t = pre @ post \<longrightarrow> bt W fl pat (lastp p pre) post [] [] = None)"
proof (induction t arbitrary: p)
  case Nil
  then show ?case by simp
next
  case (Cons c t)
  show ?case
  proof
    assume a: "search_scan W fl pat p (c # t) = None"
    then have h: "bt W fl pat p (c # t) [] [] = None" and s: "search_scan W fl pat (Some c) t = None"
      by (auto split: option.splits)
    show "\<forall>pre post. c # t = pre @ post \<longrightarrow> bt W fl pat (lastp p pre) post [] [] = None"
    proof (intro allI impI)
      fix pre post assume e: "c # t = pre @ post"
      show "bt W fl pat (lastp p pre) post [] [] = None"
      proof (cases pre)
        case Nil
        then show ?thesis using e h by simp
      next
        case (Cons x pre')
        then have "t = pre' @ post" "x = c" using e by auto
        then show ?thesis using s Cons.IH [of "Some c"] Cons by simp
      qed
    qed
  next
    assume a: "\<forall>pre post. c # t = pre @ post \<longrightarrow> bt W fl pat (lastp p pre) post [] [] = None"
    from a [rule_format, of "[]" "c # t"] have h: "bt W fl pat p (c # t) [] [] = None" by simp
    have "\<forall>pre post. t = pre @ post \<longrightarrow> bt W fl pat (lastp (Some c) pre) post [] [] = None"
    proof (intro allI impI)
      fix pre post assume "t = pre @ post"
      then have "c # t = (c # pre) @ post" by simp
      from a [rule_format, OF this] show "bt W fl pat (lastp (Some c) pre) post [] [] = None" by simp
    qed
    then have "search_scan W fl pat (Some c) t = None" using Cons.IH by simp
    then show "search_scan W fl pat p (c # t) = None" using h by simp
  qed
qed

lemma bt_append_success:
  assumes "bt W fl items p t m g = Some res" "items = xs @ r"
  shows "\<exists>p' t' m' g'. suffix t' t \<and> bt W fl r p' t' m' g' = Some res"
  using assms
proof (induction W fl items p t m g arbitrary: xs rule: bt.induct)
  case (1 W fl p s m g)
  then show ?case by (metis Nil_is_append_conv suffix_order.order_refl)
next
  case (2 W fl a r' p m g)
  from 2(1) show ?case by simp
next
  case (3 W fl a r' p c s m g)
  show ?case
  proof (cases xs)
    case Nil
    then show ?thesis using 3 by (metis append_Nil suffix_order.order_refl)
  next
    case (Cons x xs')
    then have "r' = xs' @ r" using 3 by simp
    moreover have "atom_ok fl a c" "bt W fl r' (Some c) s (m @ [c]) g = Some res"
      using 3(2) by (auto split: if_splits)
    ultimately obtain p' t' m' g' where "suffix t' s" "bt W fl r p' t' m' g' = Some res"
      using 3(1) by blast
    then show ?thesis by (meson suffix_Cons)
  qed
next
  case (4 W fl a r' p m g)
  show ?case
  proof (cases xs)
    case Nil
    then show ?thesis using 4 by (metis append_Nil suffix_order.order_refl)
  next
    case (Cons x xs')
    then have "r' = xs' @ r" using 4 by simp
    then show ?thesis using 4 by simp
  qed
next
  case (5 W fl a r' p c s m g)
  show ?case
  proof (cases xs)
    case Nil
    then show ?thesis using 5 by (metis append_Nil suffix_order.order_refl)
  next
    case (Cons x xs')
    then have e: "r' = xs' @ r" "Star a # r' = (Star a # xs') @ r" using 5 by simp_all
    show ?thesis
    proof (cases "atom_ok fl a c")
      case True
      show ?thesis
      proof (cases "bt W fl (Star a # r') (Some c) s (m @ [c]) g")
        case None
        then have "bt W fl r' p (c # s) m g = Some res" using 5(4) True by simp
        then show ?thesis using 5(2) [OF True None _ e(1)] by simp
      next
        case (Some res')
        then have "bt W fl (Star a # r') (Some c) s (m @ [c]) g = Some res" using 5(4) True by simp
        from 5(1) [OF True this e(2)] show ?thesis by (meson suffix_Cons)
      qed
    next
      case False
      then have "bt W fl r' p (c # s) m g = Some res" using 5(4) by simp
      then show ?thesis using 5(3) [OF False _ e(1)] by simp
    qed
  qed
next
  case (6 W fl a r' p s m g)
  show ?case
  proof (cases xs)
    case Nil
    then show ?thesis using 6 by (metis append_Nil suffix_order.order_refl)
  next
    case (Cons x xs')
    then have "One a # Star a # r' = ([One a, Star a] @ xs') @ r" using 6 by simp
    then show ?thesis using 6 by simp
  qed
next
  case (7 W fl ys r' p s m g)
  show ?case
  proof (cases xs)
    case Nil
    then show ?thesis using 7 by (metis append_Nil suffix_order.order_refl)
  next
    case (Cons x xs')
    then have e: "r' = xs' @ r" "ys @ r' = (ys @ xs') @ r" using 7 by simp_all
    show ?thesis
    proof (cases "bt W fl (ys @ r') p s m g")
      case None
      then show ?thesis using 7(2) [OF None _ e(1)] 7(3) by simp
    next
      case (Some a)
      then show ?thesis using 7(1) [OF _ e(2)] 7(3) by simp
    qed
  qed
next
  case (8 W fl n ys r' p s m g)
  show ?case
  proof (cases xs)
    case Nil
    then show ?thesis using 8 by (metis append_Nil suffix_order.order_refl)
  next
    case (Cons x xs')
    then have e: "ys @ Close n (length m) # r' = (ys @ Close n (length m) # xs') @ r" using 8 by simp
    then show ?thesis using 8(1) [OF _ e] 8(2) by simp
  qed
next
  case (9 W fl n k r' p s m g)
  show ?case
  proof (cases xs)
    case Nil
    then show ?thesis using 9 by (metis append_Nil suffix_order.order_refl)
  next
    case (Cons x xs')
    then have e: "r' = xs' @ r" using 9 by simp
    have "bt W fl r' p s m ((n, drop k m) # g) = Some res" using 9(2) by simp
    from 9(1) [OF this e] show ?thesis .
  qed
next
  case (10 W fl r' p s m g)
  show ?case
  proof (cases xs)
    case Nil
    then show ?thesis using 10 by (metis append_Nil suffix_order.order_refl)
  next
    case (Cons x xs')
    then have e: "r' = xs' @ r" using 10 by simp
    have "bt W fl r' p s m g = Some res" using 10(2) by (simp split: if_splits)
    moreover have c: "at_bol fl p" using 10(2) by (simp split: if_splits)
    ultimately show ?thesis using 10(1) [OF c _ e] by simp
  qed
next
  case (11 W fl r' p s m g)
  show ?case
  proof (cases xs)
    case Nil
    then show ?thesis using 11 by (metis append_Nil suffix_order.order_refl)
  next
    case (Cons x xs')
    then have e: "r' = xs' @ r" using 11 by simp
    have "bt W fl r' p s m g = Some res" using 11(2) by (simp split: if_splits)
    moreover have c: "at_eol fl s" using 11(2) by (simp split: if_splits)
    ultimately show ?thesis using 11(1) [OF c _ e] by simp
  qed
next
  case (12 W fl r' p s m g)
  show ?case
  proof (cases xs)
    case Nil
    then show ?thesis using 12 by (metis append_Nil suffix_order.order_refl)
  next
    case (Cons x xs')
    then have e: "r' = xs' @ r" using 12 by simp
    have "bt W fl r' p s m g = Some res" using 12(2) by (simp split: if_splits)
    moreover have c: "at_wordb W p s" using 12(2) by (simp split: if_splits)
    ultimately show ?thesis using 12(1) [OF c _ e] by simp
  qed
qed

lemma list_all2_lit_ok_ic:
  "IGNORECASE \<in> set fl \<Longrightarrow>
   list_all2 (lit_ok fl) cs w \<longleftrightarrow> length w = length cs \<and> map lower_fold w = map lower_fold cs"
  by (auto simp: list_all2_conv_all_nth list_eq_iff_nth_eq)

lemma bt_lits_end_ic:
  assumes "IGNORECASE \<in> set fl"
  shows "bt W fl (lits s) p t m g \<noteq> None \<longleftrightarrow> prefix_ci (py s) t"
  using bt_lits [of W fl "py s" "[]" p t m g] assms
  by (auto simp: lits_py prefix_ci_def list_all2_lit_ok_ic simp del: lit_ok.simps)

lemma contains_ci_iff:
  "contains_ci w t \<longleftrightarrow> (\<exists>pre post. t = pre @ post \<and> prefix_ci w post)"
proof (induction t)
  case Nil
  then show ?case by (auto simp: prefix_ci_def)
next
  case (Cons c t)
  show ?case
  proof
    assume "contains_ci w (c # t)"
    then consider "prefix_ci w (c # t)" | "contains_ci w t" by auto
    then show "\<exists>pre post. c # t = pre @ post \<and> prefix_ci w post"
    proof cases
      case 1
      then show ?thesis by (metis append_Nil)
    next
      case 2
      then obtain pre post where "t = pre @ post" "prefix_ci w post" using Cons.IH by blast
      then show ?thesis by (metis append_Cons)
    qed
  next
    assume "\<exists>pre post. c # t = pre @ post \<and> prefix_ci w post"
    then obtain pre post where e: "c # t = pre @ post" "prefix_ci w post" by blast
    show "contains_ci w (c # t)"
    proof (cases pre)
      case Nil
      with e have "prefix_ci w (c # t)" by simp
      then show ?thesis by simp
    next
      case (Cons x pre')
      then have "t = pre' @ post" using e by simp
      then have "contains_ci w t" using e Cons.IH by blast
      then show ?thesis by simp
    qed
  qed
qed

lemma contains_ci_suffix: "suffix t' t \<Longrightarrow> contains_ci w t' \<Longrightarrow> contains_ci w t"
  unfolding contains_ci_iff suffix_def by (metis append.assoc)

lemma search_scan_SomeE:
  assumes "search_scan W fl pat p t \<noteq> None"
  obtains pre post where "t = pre @ post" "bt W fl pat (lastp p pre) post [] [] \<noteq> None"
proof -
  from assms have "\<not> (\<forall>pre post. t = pre @ post \<longrightarrow> bt W fl pat (lastp p pre) post [] [] = None)"
    by (simp add: search_scan_None_iff)
  then obtain pre post where "t = pre @ post" "bt W fl pat (lastp p pre) post [] [] \<noteq> None"
    by auto
  then show thesis by (rule that)
qed

lemma search_scan_SomeI:
  assumes "t = pre @ post" "bt W fl pat (lastp p pre) post [] [] \<noteq> None"
  shows "search_scan W fl pat p t \<noteq> None"
proof
  assume "search_scan W fl pat p t = None"
  then have "\<forall>pre post. t = pre @ post \<longrightarrow> bt W fl pat (lastp p pre) post [] [] = None"
    by (simp add: search_scan_None_iff)
  then show False using assms by auto
qed

lemma prefix_ci_contains: "prefix_ci w t \<Longrightarrow> contains_ci w t"
  unfolding contains_ci_iff by (intro exI [of _ "[]"] exI [of _ t]) simp

lemma bt_opt_lits_ic:
  assumes "IGNORECASE \<in> set fl"
  shows "bt W fl (Opt xs # lits s) p t m g \<noteq> None \<Longrightarrow> contains_ci (py s) t"
    and "prefix_ci (py s) t \<Longrightarrow> bt W fl (Opt xs # lits s) p t m g \<noteq> None"
proof -
  assume "bt W fl (Opt xs # lits s) p t m g \<noteq> None"
  then obtain res where r: "bt W fl (Opt xs # lits s) p t m g = Some res" by blast
  show "contains_ci (py s) t"
  proof (cases "bt W fl (xs @ lits s) p t m g")
    case None
    then have "bt W fl (lits s) p t m g \<noteq> None" using r by simp
    then have "prefix_ci (py s) t" using bt_lits_end_ic [OF assms] by simp
    then show ?thesis by (rule prefix_ci_contains)
  next
    case (Some a)
    from bt_append_success [OF Some refl] obtain p' t' m' g' where
      st: "suffix t' t" and b: "bt W fl (lits s) p' t' m' g' = Some a" by blast
    from b have "bt W fl (lits s) p' t' m' g' \<noteq> None" by simp
    then have "prefix_ci (py s) t'" using bt_lits_end_ic [OF assms, of W s p' t' m' g'] by simp
    then have "contains_ci (py s) t'" by (rule prefix_ci_contains)
    with st show ?thesis by (rule contains_ci_suffix)
  qed
next
  assume "prefix_ci (py s) t"
  then have "bt W fl (lits s) p t m g \<noteq> None" using bt_lits_end_ic [OF assms] by simp
  then show "bt W fl (Opt xs # lits s) p t m g \<noteq> None"
    by (cases "bt W fl (xs @ lits s) p t m g") simp_all
qed

lemma search_opt_lits_ic:
  assumes "IGNORECASE \<in> set fl"
  shows "re_search W (Opt xs # lits s) t fl \<noteq> None \<longleftrightarrow> contains_ci (py s) t"
proof
  assume "re_search W (Opt xs # lits s) t fl \<noteq> None"
  then have "search_scan W fl (Opt xs # lits s) None t \<noteq> None" by (simp add: re_search_def)
  then obtain pre post where e: "t = pre @ post"
    and b: "bt W fl (Opt xs # lits s) (lastp None pre) post [] [] \<noteq> None"
    by (rule search_scan_SomeE)
  from b have "contains_ci (py s) post" by (rule bt_opt_lits_ic(1) [OF assms])
  moreover have "suffix post t" using e by (simp add: suffix_def)
  ultimately show "contains_ci (py s) t" using contains_ci_suffix by blast
next
  assume "contains_ci (py s) t"
  then obtain pre post where e: "t = pre @ post" and q: "prefix_ci (py s) post"
    unfolding contains_ci_iff by blast
  from q have "bt W fl (Opt xs # lits s) (lastp None pre) post [] [] \<noteq> None"
    by (rule bt_opt_lits_ic(2) [OF assms])
  with e have "search_scan W fl (Opt xs # lits s) None t \<noteq> None" by (rule search_scan_SomeI)
  then show "re_search W (Opt xs # lits s) t fl \<noteq> None" by (simp add: re_search_def)
qed

lemma signature_search_iff:
  "re_search W signature_pattern t [IGNORECASE] \<noteq> None \<longleftrightarrow> contains_ci (py ''michael'') t"
  unfolding signature_pattern_def using search_opt_lits_ic [of "[IGNORECASE]"] by simp

lemma spec_signature_search_iff:
  "re_search W spec_signature_pattern t [IGNORECASE] \<noteq> None \<longleftrightarrow> contains_ci (py ''michael'') t"
  unfolding spec_signature_pattern_def using search_opt_lits_ic [of "[IGNORECASE]"] by simp

lemma isspace_newline: "isspace newline"
  by (simp add: isspace_def newline_def)

lemma rstrip_last: "rstrip t \<noteq> [] \<Longrightarrow> \<not> isspace (last (rstrip t))"
proof -
  assume "rstrip t \<noteq> []"
  then have n: "dropWhile isspace (rev t) \<noteq> []" by (simp add: rstrip_def)
  then have "\<not> isspace (hd (dropWhile isspace (rev t)))" by (rule hd_dropWhile)
  then show ?thesis using n by (simp add: rstrip_def last_rev)
qed

lemma endswith_iff_suffix: "endswith s e \<longleftrightarrow> suffix e s"
proof
  assume "endswith s e"
  then have "s = take (length s - length e) s @ e" by (metis append_take_drop_id endswith_def)
  then show "suffix e s" by (metis suffixI)
next
  assume "suffix e s"
  then obtain ys where "s = ys @ e" by (auto simp: suffix_def)
  then show "endswith s e" by (simp add: endswith_def)
qed

lemma endswith_rstrip_space: "e \<noteq> [] \<Longrightarrow> isspace (last e) \<Longrightarrow> \<not> endswith (rstrip t) e"
proof
  assume e: "e \<noteq> []" "isspace (last e)" and "endswith (rstrip t) e"
  then obtain ys where y: "rstrip t = ys @ e" by (auto simp: endswith_iff_suffix suffix_def)
  then have "rstrip t \<noteq> []" "last (rstrip t) = last e" using e by auto
  then show False using rstrip_last e by metis
qed

lemma add_signature_eq:
  "add_signature W t = (if contains_ci (py ''michael'') t then t else rstrip t @ py ''\<newline>\<newline>Michael'')"
proof -
  have 1: "\<not> endswith (rstrip t) (py ''\<newline>'')" "\<not> endswith (rstrip t) (py ''\<newline>\<newline>'')"
    by (rule endswith_rstrip_space; simp add: py_def ch_def isspace_def)+
  have 2: "(rstrip t @ py ''\<newline>\<newline>'') @ py ''Michael'' = rstrip t @ py ''\<newline>\<newline>Michael''"
    by (simp add: py_def ch_def)
  show ?thesis
    unfolding add_signature_def Let_def using signature_search_iff [of W t] 1 2 by auto
qed

lemma sub_scan_no_match:
  "search_scan W fl pat p t = None \<Longrightarrow> sub_scan W fl pat repl 0 p t = t"
proof (induction t arbitrary: p)
  case Nil
  then show ?case by simp
next
  case (Cons c t)
  then have "bt W fl pat p (c # t) [] [] = None" "search_scan W fl pat (Some c) t = None"
    by (auto split: option.splits)
  then show ?case using Cons.IH by simp
qed

lemma atom_ok_sep: "atom_ok [IGNORECASE] sep = sepok"
  by (rule ext) (auto simp: sep_def sepok_def lower_fold_def ch_def isspace_def)

lemma atom_ok_space: "atom_ok fl Space = isspace"
  by (rule ext) simp

lemma atom_ok_AZ: "atom_ok [IGNORECASE] (Cls [CRng (ch CHR ''A'') (ch CHR ''Z'')]) = letter_ci"
proof (rule ext)
  fix c
  have ex: "list_ex Q [65 ..< Suc 90] \<longleftrightarrow> (\<exists>a. 65 \<le> a \<and> a < Suc 90 \<and> Q a)" for Q :: "nat \<Rightarrow> bool"
    by (simp only: list_ex_iff set_upt atLeastLessThan_iff Bex_def conj_assoc)
  have "(\<exists>a. 65 \<le> a \<and> a < Suc 90 \<and> lower_fold c = lower_fold a) \<longleftrightarrow> 97 \<le> lower_fold c \<and> lower_fold c \<le> 122"
  proof
    assume "\<exists>a. 65 \<le> a \<and> a < Suc 90 \<and> lower_fold c = lower_fold a"
    then obtain a where "65 \<le> a" "a < Suc 90" "lower_fold c = lower_fold a" by blast
    then show "97 \<le> lower_fold c \<and> lower_fold c \<le> 122" by (simp add: lower_fold_def)
  next
    assume a: "97 \<le> lower_fold c \<and> lower_fold c \<le> 122"
    define b where "b = lower_fold c - 32"
    from a have b: "65 \<le> b" "b \<le> 90" "lower_fold c = b + 32" unfolding b_def by linarith+
    then have "lower_fold b = b + 32" by (simp add: lower_fold_def)
    with b have "65 \<le> b \<and> b < Suc 90 \<and> lower_fold c = lower_fold b" by simp
    then show "\<exists>a. 65 \<le> a \<and> a < Suc 90 \<and> lower_fold c = lower_fold a" by blast
  qed
  then have "list_ex (\<lambda>a. lower_fold c = lower_fold a) [65 ..< Suc 90] \<longleftrightarrow> letter_ci c"
    unfolding ex letter_ci_def .
  then show "atom_ok [IGNORECASE] (Cls [CRng (ch CHR ''A'') (ch CHR ''Z'')]) c = letter_ci c"
    by (simp add: ch_def del: upt_Suc)
qed

section \<open>The signature stage\<close>

lemma rstrip_idem_nonspace:
  assumes "t \<noteq> []" "\<not> isspace (last t)"
  shows "rstrip t = t"
proof -
  from assms(1) obtain u c where t: "t = u @ [c]" by (cases t rule: rev_cases) auto
  with assms(2) have "\<not> isspace c" by simp
  then show ?thesis by (simp add: rstrip_def t)
qed

lemma rstrip_prefix: "prefix (rstrip t) t"
proof -
  have "rev t = takeWhile isspace (rev t) @ dropWhile isspace (rev t)" by simp
  then have "t = rev (dropWhile isspace (rev t)) @ rev (takeWhile isspace (rev t))"
    by (metis rev_append rev_rev_ident)
  then show ?thesis unfolding rstrip_def by (metis prefixI)
qed

lemma prefix_ci_append_short:
  assumes "prefix_ci w (u @ v)" "length u < length w"
  shows "v \<noteq> [] \<and> lower_fold (hd v) = lower_fold (w ! length u)"
proof -
  from assms have l: "length w \<le> length u + length v"
    and e: "map lower_fold (take (length w) (u @ v)) = map lower_fold w"
    by (auto simp: prefix_ci_def)
  from l assms(2) have v: "v \<noteq> []" by auto
  have "map lower_fold (take (length w) (u @ v)) ! length u = lower_fold (take (length w) (u @ v) ! length u)"
    using assms(2) l by (intro nth_map) simp
  moreover have "map lower_fold w ! length u = lower_fold (w ! length u)"
    using assms(2) by (intro nth_map)
  moreover have "take (length w) (u @ v) ! length u = hd v"
    using assms(2) v by (simp add: nth_append hd_conv_nth)
  ultimately show ?thesis using v e by simp
qed

lemma prefix_ci_append_long:
  assumes "prefix_ci w (u @ v)" "length w \<le> length u"
  shows "prefix_ci w u"
  using assms by (simp add: prefix_ci_def)

lemma prefix_ci_append: "prefix_ci w u \<Longrightarrow> prefix_ci w (u @ r)"
  by (simp add: prefix_ci_def)

lemma contains_ci_prefix:
  assumes "prefix u t" "contains_ci w u"
  shows "contains_ci w t"
proof -
  from assms(2) obtain pre post where u: "u = pre @ post" and q: "prefix_ci w post"
    unfolding contains_ci_iff by blast
  from assms(1) obtain r where t: "t = u @ r" by (auto simp: prefix_def)
  have "t = pre @ (post @ r)" by (simp add: t u)
  moreover have "prefix_ci w (post @ r)" using q by (rule prefix_ci_append)
  ultimately show ?thesis unfolding contains_ci_iff by blast
qed

lemma count_ci_append_barrier:
  assumes "\<not> contains_ci w z" "v \<noteq> []" "\<forall>c \<in> set w. lower_fold c \<noteq> lower_fold (hd v)"
  shows "count_ci w (z @ v) = count_ci w v"
  using assms(1)
proof (induction z)
  case Nil
  then show ?case by simp
next
  case (Cons c z)
  then have n: "\<not> prefix_ci w (c # z)" "\<not> contains_ci w z" by auto
  have "\<not> prefix_ci w ((c # z) @ v)"
  proof
    assume a: "prefix_ci w ((c # z) @ v)"
    show False
    proof (cases "length w \<le> length (c # z)")
      case True
      with a have "prefix_ci w (c # z)" by (rule prefix_ci_append_long)
      then show ?thesis using n by simp
    next
      case False
      then have l: "length (c # z) < length w" by simp
      from prefix_ci_append_short [OF a l] have "lower_fold (hd v) = lower_fold (w ! length (c # z))" by simp
      moreover have "w ! length (c # z) \<in> set w" using l by simp
      ultimately show ?thesis using assms(3) by metis
    qed
  qed
  then show ?case using Cons.IH n by simp
qed

lemma count_ci_signature:
  assumes "\<not> contains_ci (py ''michael'') y"
  shows "count_ci (py ''michael'') (rstrip y @ py ''\<newline>\<newline>Michael'') = 1"
proof -
  have "\<not> contains_ci (py ''michael'') (rstrip y)"
    using assms contains_ci_prefix [OF rstrip_prefix] by blast
  moreover have "py ''\<newline>\<newline>Michael'' \<noteq> []" by (simp add: py_def ch_def)
  moreover have "\<forall>c \<in> set (py ''michael''). lower_fold c \<noteq> lower_fold (hd (py ''\<newline>\<newline>Michael''))"
    by (simp add: py_def ch_def lower_fold_def)
  ultimately have "count_ci (py ''michael'') (rstrip y @ py ''\<newline>\<newline>Michael'')
      = count_ci (py ''michael'') (py ''\<newline>\<newline>Michael'')"
    by (rule count_ci_append_barrier)
  also have "\<dots> = 1" by (simp add: py_def ch_def prefix_ci_def lower_fold_def)
  finally show ?thesis .
qed

text \<open>
  Claim C6.  Whenever the pattern \<open>(signature:?\s*)?michael\<close> matches somewhere in the
  text, case-insensitively, \<open>_add_signature\<close> returns the text as it is: a text that
  holds \<open>Signature: Michael\<close>, or that mentions Michael in its middle, gets no second
  signature.
\<close>

theorem add_signature_noop:
  "re_search W spec_signature_pattern t [IGNORECASE] \<noteq> None \<Longrightarrow> add_signature W t = t"
  using spec_signature_search_iff [of W t] by (simp add: add_signature_eq)

theorem add_signature_noop_witness:
  "re_search ascii_only spec_signature_pattern (py ''Signature: Michael'') [IGNORECASE] \<noteq> None
   \<and> add_signature ascii_only (py ''Signature: Michael'') = py ''Signature: Michael''
   \<and> re_search ascii_only spec_signature_pattern (py ''Ask Michael to call'') [IGNORECASE] \<noteq> None
   \<and> add_signature ascii_only (py ''Ask Michael to call'') = py ''Ask Michael to call''"
proof -
  have 1: "re_search ascii_only spec_signature_pattern (py ''Signature: Michael'') [IGNORECASE] \<noteq> None"
    by (simp add: ev)
  have 2: "re_search ascii_only spec_signature_pattern (py ''Ask Michael to call'') [IGNORECASE] \<noteq> None"
    by (simp add: ev)
  show ?thesis using 1 2 add_signature_noop [OF 1] add_signature_noop [OF 2] by simp
qed

text \<open>
  Claim C7.  When that pattern matches nowhere, \<open>_add_signature\<close> returns the text
  with its trailing whitespace stripped, then two newline characters (the stripped
  text ends in none), then \<open>Michael\<close>.  The empty text gives \<open>\n\nMichael\<close>, and a
  text that ends in \<open>see you then.\<close> gives one that ends in \<open>see you then.\n\nMichael\<close>.
\<close>

theorem add_signature_appends:
  assumes "re_search W spec_signature_pattern t [IGNORECASE] = None"
  shows "add_signature W t = rstrip t @ py ''\<newline>\<newline>'' @ py ''Michael''
       \<and> \<not> endswith (rstrip t) (py ''\<newline>'')
       \<and> (t = [] \<longrightarrow> add_signature W t = py ''\<newline>\<newline>Michael'')
       \<and> (\<forall>pre. t = pre @ py ''see you then.''
            \<longrightarrow> add_signature W t = pre @ py ''see you then.\<newline>\<newline>Michael'')"
proof -
  from assms have n: "\<not> contains_ci (py ''michael'') t"
    using spec_signature_search_iff [of W t] by simp
  then have a: "add_signature W t = rstrip t @ py ''\<newline>\<newline>Michael''"
    by (simp add: add_signature_eq)
  have b: "\<not> endswith (rstrip t) (py ''\<newline>'')"
    by (rule endswith_rstrip_space) (simp_all add: py_def ch_def isspace_def)
  have c: "rstrip (pre @ py ''see you then.'') = pre @ py ''see you then.''" for pre
    by (rule rstrip_idem_nonspace) (simp_all add: py_def ch_def isspace_def)
  have d: "rstrip [] = []" by (simp add: rstrip_def)
  have e: "py ''\<newline>\<newline>'' @ py ''Michael'' = py ''\<newline>\<newline>Michael''" by (simp add: py_def ch_def)
  have f: "py ''see you then.'' @ py ''\<newline>\<newline>Michael'' = py ''see you then.\<newline>\<newline>Michael''"
    by (simp add: py_def ch_def)
  have 1: "add_signature W t = rstrip t @ py ''\<newline>\<newline>'' @ py ''Michael''"
    by (simp only: a e)
  have 2: "t = [] \<longrightarrow> add_signature W t = py ''\<newline>\<newline>Michael''"
  proof
    assume "t = []"
    with a d show "add_signature W t = py ''\<newline>\<newline>Michael''" by simp
  qed
  have 3: "\<forall>pre. t = pre @ py ''see you then.''
            \<longrightarrow> add_signature W t = pre @ py ''see you then.\<newline>\<newline>Michael''"
  proof (intro allI impI)
    fix pre assume "t = pre @ py ''see you then.''"
    then have "add_signature W t = (pre @ py ''see you then.'') @ py ''\<newline>\<newline>Michael''"
      using a c [of pre] by simp
    then show "add_signature W t = pre @ py ''see you then.\<newline>\<newline>Michael''"
      using f by simp
  qed
  from 1 b 2 3 show ?thesis by blast
qed

theorem add_signature_appends_witness:
  "re_search ascii_only spec_signature_pattern (py ''ok, see you then.'') [IGNORECASE] = None
   \<and> add_signature ascii_only (py ''ok, see you then.'') = py ''ok, see you then.\<newline>\<newline>Michael''
   \<and> re_search ascii_only spec_signature_pattern [] [IGNORECASE] = None
   \<and> add_signature ascii_only [] = py ''\<newline>\<newline>Michael''"
proof -
  have 1: "re_search ascii_only spec_signature_pattern (py ''ok, see you then.'') [IGNORECASE] = None"
    by (simp add: ev)
  have 2: "re_search ascii_only spec_signature_pattern [] [IGNORECASE] = None"
    by (simp add: ev)
  have 3: "py ''ok, see you then.'' = py ''ok, '' @ py ''see you then.''" by (simp add: py_def ch_def)
  have 4: "py ''ok, '' @ py ''see you then.\<newline>\<newline>Michael'' = py ''ok, see you then.\<newline>\<newline>Michael''"
    by (simp add: py_def ch_def)
  from add_signature_appends [OF 1] 3
  have "add_signature ascii_only (py ''ok, see you then.'') = py ''ok, '' @ py ''see you then.\<newline>\<newline>Michael''"
    by blast
  moreover from add_signature_appends [OF 2]
  have "add_signature ascii_only [] = py ''\<newline>\<newline>Michael''" by blast
  ultimately show ?thesis using 1 2 4 by simp
qed

text \<open>
  Claim C9.  The output of the pipeline holds \<open>michael\<close> up to case, and so is never
  empty, for every input, the empty one included: the pipeline ends with
  \<open>_add_signature\<close>, whose search finds a match exactly when its input holds \<open>michael\<close>
  up to case, and which then returns its input unchanged, and otherwise returns it
  without its trailing whitespace, followed by two newline characters and \<open>Michael\<close>.
\<close>

theorem normalize_contains_signature:
  "contains_ci (py ''michael'') (normalize_text W x) \<and> normalize_text W x \<noteq> []
   \<and> normalize_text W x
       = add_signature W (fix_bullet_format W (format_section_headers W (fix_common_errors W x)))
   \<and> (re_search W signature_pattern t [IGNORECASE] \<noteq> None) = contains_ci (py ''michael'') t
   \<and> (contains_ci (py ''michael'') t \<longrightarrow> add_signature W t = t)
   \<and> (\<not> contains_ci (py ''michael'') t \<longrightarrow> add_signature W t = rstrip t @ py ''\<newline>\<newline>Michael'')"
proof -
  define y where "y = fix_bullet_format W (format_section_headers W (fix_common_errors W x))"
  have n: "normalize_text W x = add_signature W y" by (simp add: normalize_text_def y_def)
  have "contains_ci (py ''michael'') (add_signature W y)"
  proof (cases "contains_ci (py ''michael'') y")
    case True
    then show ?thesis by (simp add: add_signature_eq)
  next
    case False
    have "prefix_ci (py ''michael'') (py ''Michael'')" by (simp add: py_def ch_def prefix_ci_def lower_fold_def)
    then have "contains_ci (py ''michael'') (py ''Michael'')" by (rule prefix_ci_contains)
    moreover have "suffix (py ''Michael'') (rstrip y @ py ''\<newline>\<newline>Michael'')"
      by (simp add: py_def ch_def suffix_def)
    ultimately have "contains_ci (py ''michael'') (rstrip y @ py ''\<newline>\<newline>Michael'')"
      using contains_ci_suffix by blast
    then show ?thesis using False by (simp add: add_signature_eq)
  qed
  moreover have "\<not> contains_ci (py ''michael'') []" by (simp add: py_def ch_def)
  ultimately have 1: "contains_ci (py ''michael'') (normalize_text W x)" and 2: "normalize_text W x \<noteq> []"
    unfolding n by metis+
  have 3: "(re_search W signature_pattern t [IGNORECASE] \<noteq> None) = contains_ci (py ''michael'') t"
    using signature_search_iff [of W t] by simp
  have 4: "contains_ci (py ''michael'') t \<longrightarrow> add_signature W t = t" by (simp add: add_signature_eq)
  have 5: "\<not> contains_ci (py ''michael'') t \<longrightarrow> add_signature W t = rstrip t @ py ''\<newline>\<newline>Michael''"
    by (simp add: add_signature_eq)
  from 1 2 n 3 4 5 show ?thesis unfolding y_def by blast
qed

theorem normalize_contains_signature_witness:
  "contains_ci (py ''michael'') (normalize_text ascii_only []) \<and> normalize_text ascii_only [] \<noteq> []
   \<and> normalize_text ascii_only [] = py ''\<newline>\<newline>Michael''
   \<and> contains_ci (py ''michael'') (normalize_text ascii_only (py ''- call Ann  ''))
   \<and> normalize_text ascii_only (py ''- call Ann  '') = py '' -  call Ann\<newline>\<newline>Michael''
   \<and> contains_ci (py ''michael'') (py ''Ask MICHAEL to call'')
   \<and> add_signature ascii_only (py ''Ask MICHAEL to call'') = py ''Ask MICHAEL to call''
   \<and> \<not> contains_ci (py ''michael'') (py ''see you then. '')
   \<and> add_signature ascii_only (py ''see you then. '') = py ''see you then.\<newline>\<newline>Michael''"
proof -
  have a: "normalize_text ascii_only [] = py ''\<newline>\<newline>Michael''" by (simp add: ev)
  have b: "normalize_text ascii_only (py ''- call Ann  '') = py '' -  call Ann\<newline>\<newline>Michael''"
    by (simp add: ev)
  have c: "contains_ci (py ''michael'') (py ''Ask MICHAEL to call'')"
    by (simp add: py_def ch_def prefix_ci_def lower_fold_def)
  have d: "\<not> contains_ci (py ''michael'') (py ''see you then. '')"
    by (simp add: py_def ch_def prefix_ci_def lower_fold_def)
  have e: "rstrip (py ''see you then. '') @ py ''\<newline>\<newline>Michael'' = py ''see you then.\<newline>\<newline>Michael''"
    by (simp add: py_def ch_def rstrip_def isspace_def)
  note T1 = normalize_contains_signature [of ascii_only "[]" "py ''Ask MICHAEL to call''"]
  note T2 = normalize_contains_signature [of ascii_only "py ''- call Ann  ''" "py ''see you then. ''"]
  from T1 have 1: "contains_ci (py ''michael'') (normalize_text ascii_only [])"
    and 2: "normalize_text ascii_only [] \<noteq> []" by blast+
  from T1 c have 3: "add_signature ascii_only (py ''Ask MICHAEL to call'') = py ''Ask MICHAEL to call''"
    by blast
  from T2 have 4: "contains_ci (py ''michael'') (normalize_text ascii_only (py ''- call Ann  ''))" by blast
  from T2 d have "add_signature ascii_only (py ''see you then. '') = rstrip (py ''see you then. '') @ py ''\<newline>\<newline>Michael''"
    by blast
  then have 5: "add_signature ascii_only (py ''see you then. '') = py ''see you then.\<newline>\<newline>Michael''"
    unfolding e .
  from 1 2 a 4 b c 3 d 5 show ?thesis by blast
qed

text \<open>
  Claim C8 says that the output of the pipeline always ends with \<open>Michael\<close> behind
  one blank line.  A text that mentions Michael anywhere is returned unsigned.
\<close>

theorem normalize_trailing_signature_counterexample:
  "normalize_text ascii_only (py ''Michael will call'') = py ''Michael will call''
   \<and> \<not> endswith (normalize_text ascii_only (py ''Michael will call'')) (py ''Michael'')"
proof -
  have "normalize_text ascii_only (py ''Michael will call'') = py ''Michael will call''"
    by (simp add: ev)
  moreover have "\<not> endswith (py ''Michael will call'') (py ''Michael'')"
    by (simp add: py_def ch_def endswith_def)
  ultimately show ?thesis by simp
qed

text \<open>
  Claim C8, amended.  When the text that leaves the first three stages mentions
  \<open>michael\<close> (up to case), the pipeline appends nothing to it.  Otherwise the output is
  that text without its trailing whitespace, two newline characters and \<open>Michael\<close>,
  and it holds the signature exactly once.
\<close>

theorem normalize_trailing_signature:
  "(contains_ci (py ''michael'') (fix_bullet_format W (format_section_headers W (fix_common_errors W x)))
      \<longrightarrow> normalize_text W x = fix_bullet_format W (format_section_headers W (fix_common_errors W x)))
   \<and> (\<not> contains_ci (py ''michael'') (fix_bullet_format W (format_section_headers W (fix_common_errors W x)))
      \<longrightarrow> normalize_text W x
            = rstrip (fix_bullet_format W (format_section_headers W (fix_common_errors W x)))
              @ py ''\<newline>\<newline>Michael''
        \<and> \<not> endswith (rstrip (fix_bullet_format W (format_section_headers W (fix_common_errors W x))))
              (py ''\<newline>'')
        \<and> count_ci (py ''michael'') (normalize_text W x) = 1)"
proof -
  define y where "y = fix_bullet_format W (format_section_headers W (fix_common_errors W x))"
  have n: "normalize_text W x = add_signature W y" by (simp add: normalize_text_def y_def)
  have 1: "contains_ci (py ''michael'') y \<longrightarrow> normalize_text W x = y"
    by (simp add: n add_signature_eq)
  have 2: "\<not> contains_ci (py ''michael'') y \<longrightarrow> normalize_text W x = rstrip y @ py ''\<newline>\<newline>Michael''"
    by (simp add: n add_signature_eq)
  have 3: "\<not> endswith (rstrip y) (py ''\<newline>'')"
    by (rule endswith_rstrip_space) (simp_all add: py_def ch_def isspace_def)
  have 4: "\<not> contains_ci (py ''michael'') y \<longrightarrow> count_ci (py ''michael'') (normalize_text W x) = 1"
    using 2 count_ci_signature [of y] by simp
  from 1 2 3 4 show ?thesis unfolding y_def by blast
qed

theorem normalize_trailing_signature_witness:
  "\<not> contains_ci (py ''michael'') (fix_bullet_format ascii_only (format_section_headers ascii_only (fix_common_errors ascii_only (py ''see you''))))
   \<and> normalize_text ascii_only (py ''see you'') = py ''see you\<newline>\<newline>Michael''
   \<and> count_ci (py ''michael'') (normalize_text ascii_only (py ''see you'')) = 1
   \<and> contains_ci (py ''michael'') (fix_bullet_format ascii_only (format_section_headers ascii_only (fix_common_errors ascii_only (py ''Michael will call''))))
   \<and> normalize_text ascii_only (py ''Michael will call'') = py ''Michael will call''"
proof -
  have a: "fix_bullet_format ascii_only (format_section_headers ascii_only (fix_common_errors ascii_only (py ''see you''))) = py ''see you''"
    by (simp add: ev)
  have b: "fix_bullet_format ascii_only (format_section_headers ascii_only (fix_common_errors ascii_only (py ''Michael will call''))) = py ''Michael will call''"
    by (simp add: ev)
  have c: "\<not> contains_ci (py ''michael'') (py ''see you'')" by (simp add: py_def ch_def prefix_ci_def lower_fold_def)
  have d: "contains_ci (py ''michael'') (py ''Michael will call'')" by (simp add: py_def ch_def prefix_ci_def lower_fold_def)
  have e: "rstrip (py ''see you'') @ py ''\<newline>\<newline>Michael'' = py ''see you\<newline>\<newline>Michael''"
    by (simp add: py_def ch_def rstrip_def isspace_def)
  from normalize_trailing_signature [of ascii_only "py ''see you''"]
  have "\<not> contains_ci (py ''michael'') (py ''see you'')
      \<longrightarrow> normalize_text ascii_only (py ''see you'') = rstrip (py ''see you'') @ py ''\<newline>\<newline>Michael''
        \<and> count_ci (py ''michael'') (normalize_text ascii_only (py ''see you'')) = 1"
    unfolding a by blast
  with c e have 1: "normalize_text ascii_only (py ''see you'') = py ''see you\<newline>\<newline>Michael''"
    and 2: "count_ci (py ''michael'') (normalize_text ascii_only (py ''see you'')) = 1" by metis+
  from normalize_trailing_signature [of ascii_only "py ''Michael will call''"]
  have "contains_ci (py ''michael'') (py ''Michael will call'')
      \<longrightarrow> normalize_text ascii_only (py ''Michael will call'') = py ''Michael will call''"
    unfolding b by blast
  with d have 3: "normalize_text ascii_only (py ''Michael will call'') = py ''Michael will call''" by blast
  from 1 2 3 c d show ?thesis unfolding a b by blast
qed

section \<open>The bullet stage\<close>

lemma bt_star_det:
  assumes "\<And>c s' p' m'. atom_ok fl a c \<Longrightarrow> bt W fl r p' (c # s') m' g = None"
  shows "bt W fl (Star a # r) p s m g =
     bt W fl r (lastp p (takeWhile (atom_ok fl a) s)) (dropWhile (atom_ok fl a) s)
       (m @ takeWhile (atom_ok fl a) s) g"
proof (induction s arbitrary: p m)
  case Nil
  then show ?case by simp
next
  case (Cons c s)
  show ?case
  proof (cases "atom_ok fl a c")
    case True
    have "bt W fl (Star a # r) p (c # s) m g = bt W fl (Star a # r) (Some c) s (m @ [c]) g"
      using True assms [OF True, of p s m]
      by (cases "bt W fl (Star a # r) (Some c) s (m @ [c]) g") simp_all
    then show ?thesis using True Cons.IH [of "Some c" "m @ [c]"] by simp
  next
    case False
    then show ?thesis by simp
  qed
qed

lemma bt_dot_rest:
  assumes "newline \<notin> set s"
  shows "bt W fl [Star Dot, Close n k, Eol] p s m g = Some (m @ s, (n, drop k (m @ s)) # g)"
  using assms
proof (induction s arbitrary: p m)
  case Nil
  then show ?case by (simp add: at_eol_def)
next
  case (Cons c s)
  then have "c \<noteq> newline" "newline \<notin> set s" by auto
  then show ?case using Cons.IH [of "Some c" "m @ [c]"] by simp
qed

lemma bt_content:
  assumes "newline \<notin> set s"
  shows "bt W fl [Grp 3 [Plus Dot], Eol] p s m g =
     (if s = [] then None else Some (m @ s, (3, s) # g))"
proof (cases s)
  case Nil
  then show ?thesis by simp
next
  case (Cons c s')
  then have "c \<noteq> newline" "newline \<notin> set s'" using assms by auto
  then show ?thesis using Cons bt_dot_rest [of s' W fl 3 "length m" "Some c" "m @ [c]" g] by simp
qed

lemma bt_gap_content:
  assumes "newline \<notin> set s"
  shows "bt W fl [Star Space, Grp 3 [Plus Dot], Eol] p s m g =
     (if s = [] then None
      else Some (m @ s, (3, if dropWhile isspace s = [] then [last s] else dropWhile isspace s) # g))"
  using assms
proof (induction s arbitrary: p m)
  case Nil
  then show ?case by simp
next
  case (Cons c s)
  then have n: "newline \<notin> set s" "newline \<notin> set (c # s)" by auto
  show ?case
  proof (cases "isspace c")
    case True
    show ?thesis
    proof (cases "s = []")
      case True
      then show ?thesis using \<open>isspace c\<close> bt_content [OF n(2), of W fl p m g] by simp
    next
      case False
      then show ?thesis using \<open>isspace c\<close> Cons.IH [OF n(1), of "Some c" "m @ [c]"] by simp
    qed
  next
    case False
    then show ?thesis using bt_content [OF n(2), of W fl p m g] by simp
  qed
qed

lemma marker_not_space: "\<not> isspace (ch CHR ''-'')" "\<not> isspace bullet"
  by (simp_all add: isspace_def bullet_def ch_def)

lemma bt_bullet_tail:
  assumes "newline \<notin> set l"
  shows "map_option (\<lambda>(m, g). map_of g 3)
           (bt W [] [Close (Suc 0) 0, Grp 2 [One (Cls [CLit (ch CHR ''-''), CLit bullet])],
                     Plus Space, Grp 3 [Plus Dot], Eol] p l w []) =
         map_option Some
           (case l of
              [] \<Rightarrow> None
            | mk # r \<Rightarrow>
                if mk = ch CHR ''-'' \<or> mk = bullet
                then (case r of
                        [] \<Rightarrow> None
                      | x # s \<Rightarrow>
                          if isspace x \<and> s \<noteq> []
                          then Some (if dropWhile isspace s = [] then [last s] else dropWhile isspace s)
                          else None)
                else None)"
proof (cases l)
  case Nil
  then show ?thesis by simp
next
  case l: (Cons mk r)
  show ?thesis
  proof (cases r)
    case Nil
    then show ?thesis using l by simp
  next
    case (Cons x s)
    then have "newline \<notin> set s" using assms l by simp
    then show ?thesis using l Cons by (simp add: bt_gap_content)
  qed
qed

lemma re_match_bullet:
  assumes "newline \<notin> set line"
  shows "map_option (\<lambda>(m, g). map_of g 3) (re_match W bullet_pattern line []) =
         map_option Some (bullet_content line)"
proof -
  have ao: "atom_ok [] Space = isspace" by (rule ext) simp
  have pre: "bt W [] [Close (Suc 0) 0, Grp 2 [One (Cls [CLit (ch CHR ''-''), CLit bullet])],
              Plus Space, Grp 3 [Plus Dot], Eol] p' (c # s') m' [] = None"
    if "atom_ok [] Space c" for c s' p' m'
  proof -
    from that have "c \<noteq> ch CHR ''-''" "c \<noteq> bullet" using marker_not_space by auto
    then show ?thesis by simp
  qed
  have star: "bt W [] (Star Space # [Close (Suc 0) 0, Grp 2 [One (Cls [CLit (ch CHR ''-''), CLit bullet])],
              Plus Space, Grp 3 [Plus Dot], Eol]) None line [] [] =
     bt W [] [Close (Suc 0) 0, Grp 2 [One (Cls [CLit (ch CHR ''-''), CLit bullet])],
              Plus Space, Grp 3 [Plus Dot], Eol] (lastp None (takeWhile (atom_ok [] Space) line))
        (dropWhile (atom_ok [] Space) line) ([] @ takeWhile (atom_ok [] Space) line) []"
    by (rule bt_star_det) (rule pre)
  have 0: "bt W [] bullet_pattern None line [] [] =
     bt W [] (Star Space # [Close (Suc 0) 0, Grp 2 [One (Cls [CLit (ch CHR ''-''), CLit bullet])],
              Plus Space, Grp 3 [Plus Dot], Eol]) None line [] []"
    by (simp add: bullet_pattern_def at_bol_def)
  have n: "newline \<notin> set (dropWhile isspace line)"
    using assms by (meson set_dropWhileD)
  show ?thesis
    unfolding re_match_def 0 star ao bullet_content_def append_Nil
    by (rule bt_bullet_tail [OF n])
qed

lemma fix_bullet_line_eq:
  assumes "newline \<notin> set line"
  shows "fix_bullet_line W line =
     (case bullet_content line of Some content \<Rightarrow> py '' -  '' @ content | None \<Rightarrow> line)"
proof (cases "re_match W bullet_pattern line []")
  case None
  then have "bullet_content line = None" using re_match_bullet [OF assms, of W] by simp
  then show ?thesis using None by (simp add: fix_bullet_line_def)
next
  case (Some res)
  obtain m g where res: "res = (m, g)" by (cases res)
  from Some res re_match_bullet [OF assms, of W] obtain c where "bullet_content line = Some c" "map_of g 3 = Some c"
    by (cases "bullet_content line") auto
  then show ?thesis using Some res by (simp add: fix_bullet_line_def)
qed

lemma split_nl_nonempty: "split_nl t \<noteq> []"
  by (induction t) (auto split: list.splits)

lemma split_nl_no_newline: "l \<in> set (split_nl t) \<Longrightarrow> newline \<notin> set l"
proof (induction t arbitrary: l)
  case Nil
  then show ?case by simp
next
  case (Cons c t)
  show ?case
  proof (cases "c = newline")
    case True
    then show ?thesis using Cons by auto
  next
    case False
    obtain h ls where s: "split_nl t = h # ls" using split_nl_nonempty [of t] by (cases "split_nl t") auto
    then have "l = c # h \<or> l \<in> set ls" using Cons.prems False by simp
    moreover have "newline \<notin> set h" "\<And>l. l \<in> set ls \<Longrightarrow> newline \<notin> set l"
      using Cons.IH s by simp_all
    ultimately show ?thesis using False by auto
  qed
qed

lemma join_split_nl: "join_nl (split_nl t) = t"
proof (induction t)
  case Nil
  then show ?case by simp
next
  case (Cons c t)
  obtain h ls where s: "split_nl t = h # ls" using split_nl_nonempty [of t] by (cases "split_nl t") auto
  show ?case
  proof (cases "c = newline")
    case True
    then show ?thesis using Cons s by simp
  next
    case False
    then show ?thesis using Cons s by (cases ls) simp_all
  qed
qed

lemma split_nl_line: "newline \<notin> set l \<Longrightarrow> split_nl l = [l]"
  by (induction l) auto

lemma split_nl_append: "newline \<notin> set l \<Longrightarrow> split_nl (l @ newline # r) = l # split_nl r"
  by (induction l) auto

lemma split_join_nl:
  assumes "ls \<noteq> []" "\<And>l. l \<in> set ls \<Longrightarrow> newline \<notin> set l"
  shows "split_nl (join_nl ls) = ls"
  using assms
proof (induction ls rule: join_nl.induct)
  case 1
  then show ?case by simp
next
  case (2 l)
  then show ?case by (simp add: split_nl_line)
next
  case (3 l v va)
  then show ?case by (simp add: split_nl_append)
qed

lemma bullet_content_subset:
  assumes "bullet_content line = Some c"
  shows "set c \<subseteq> set line"
proof -
  from assms obtain mk x s where d: "dropWhile isspace line = mk # x # s" and s: "s \<noteq> []"
    and c: "c = (if dropWhile isspace s = [] then [last s] else dropWhile isspace s)"
    by (auto simp: bullet_content_def split: list.splits if_splits)
  have "set s \<subseteq> set line" using d by (metis set_dropWhileD list.set_intros(2) subsetI)
  moreover have "set c \<subseteq> set s" using c s by (auto dest: set_dropWhileD)
  ultimately show ?thesis by blast
qed

lemma fix_bullet_line_no_newline:
  assumes "newline \<notin> set line"
  shows "newline \<notin> set (fix_bullet_line W line)"
proof (cases "bullet_content line")
  case None
  then show ?thesis using assms by (simp add: fix_bullet_line_eq)
next
  case (Some c)
  then have "newline \<notin> set c" using bullet_content_subset assms by blast
  then show ?thesis using Some assms by (simp add: fix_bullet_line_eq py_def ch_def newline_def)
qed

lemma split_fix_bullet_format:
  "split_nl (fix_bullet_format W t) = map (fix_bullet_line W) (split_nl t)"
  unfolding fix_bullet_format_def
  by (rule split_join_nl) (auto simp: split_nl_nonempty dest: split_nl_no_newline fix_bullet_line_no_newline)

lemma list_all_space_dropWhile: "list_all isspace g \<Longrightarrow> dropWhile isspace (g @ c) = dropWhile isspace c"
  by (induction g) auto

lemma list_all_space_takeWhile:
  "list_all isspace g \<Longrightarrow> \<not> isspace mk \<Longrightarrow> takeWhile isspace (g @ mk # c) = g"
  by (induction g) auto

lemma spec_match_content:
  assumes "spec_bullet_match line ind mk gap c'"
  shows "\<exists>c. bullet_content line = Some c \<and> length c \<le> length c'"
proof -
  from assms have line: "line = ind @ mk # gap @ c'" and ind: "list_all isspace ind"
    and mk: "mk = ch CHR ''-'' \<or> mk = bullet" and gap: "gap \<noteq> []" "list_all isspace gap"
    and c': "c' \<noteq> []"
    by (auto simp: spec_bullet_match_def)
  from mk have nmk: "\<not> isspace mk" using marker_not_space by auto
  from gap obtain x g where g: "gap = x # g" "isspace x" "list_all isspace g" by (cases gap) auto
  have d: "dropWhile isspace line = mk # x # g @ c'"
    using line ind nmk g by (simp add: dropWhile_append3 list_all_iff dropWhile_append2)
  have l: "length (dropWhile isspace (g @ c')) \<le> length c'"
    using g(3) by (simp add: list_all_space_dropWhile length_dropWhile_le)
  have "bullet_content line = Some (if dropWhile isspace (g @ c') = [] then [last (g @ c')] else dropWhile isspace (g @ c'))"
    using d mk g c' by (simp add: bullet_content_def)
  moreover have "length (if dropWhile isspace (g @ c') = [] then [last (g @ c')] else dropWhile isspace (g @ c')) \<le> length c'"
    using l c' by (cases c') auto
  ultimately show ?thesis by blast
qed

lemma content_spec_match:
  assumes "bullet_content line = Some c" "newline \<notin> set line"
  shows "\<exists>ind mk gap. spec_bullet_match line ind mk gap c"
proof -
  from assms obtain mk x s where d: "dropWhile isspace line = mk # x # s" and s: "s \<noteq> []"
    and mk: "mk = ch CHR ''-'' \<or> mk = bullet" and x: "isspace x"
    and c: "c = (if dropWhile isspace s = [] then [last s] else dropWhile isspace s)"
    by (auto simp: bullet_content_def split: list.splits if_splits)
  define ind where "ind = takeWhile isspace line"
  have line: "line = ind @ mk # x # s" unfolding ind_def using d by (metis takeWhile_dropWhile_id)
  have ind: "list_all isspace ind" unfolding ind_def list_all_iff by (meson set_takeWhileD)
  have "newline \<notin> set c" using bullet_content_subset [OF assms(1)] assms(2) by blast
  then have nc: "list_all (\<lambda>c. c \<noteq> newline) c" by (auto simp: list_all_iff)
  have cn: "c \<noteq> []" using c by simp
  show ?thesis
  proof (cases "dropWhile isspace s = []")
    case True
    then have a: "list_all isspace s" by (simp add: list_all_iff dropWhile_eq_Nil_conv)
    have "s = butlast s @ [last s]" using s by simp
    then have "line = ind @ mk # (x # butlast s) @ c" using line c True by simp
    moreover have "list_all isspace (x # butlast s)" using a x by (auto simp: list_all_iff dest: in_set_butlastD)
    ultimately have "spec_bullet_match line ind mk (x # butlast s) c"
      using ind mk nc cn by (simp add: spec_bullet_match_def)
    then show ?thesis by blast
  next
    case False
    then have "c = dropWhile isspace s" using c by (simp only: if_False)
    then have "s = takeWhile isspace s @ c" by simp
    then have "line = ind @ mk # (x # takeWhile isspace s) @ c" using line by simp
    moreover have "list_all isspace (x # takeWhile isspace s)" using x by (auto simp: list_all_iff dest: set_takeWhileD)
    ultimately have "spec_bullet_match line ind mk (x # takeWhile isspace s) c"
      using ind mk nc cn by (simp add: spec_bullet_match_def)
    then show ?thesis by blast
  qed
qed

text \<open>
  Claim C5.  \<open>_fix_bullet_format\<close> works line by line.  A line that is whitespace, a
  marker (hyphen or bullet glyph), at least one whitespace character and a content of
  at least one character becomes \<open>' -  '\<close> followed by the content, which is the
  shortest content that such a reading of the line allows (the whitespace behind the
  marker is taken greedily); every other line, so a blank one, one that ends with
  its marker or one without a marker, is left as it is.  In particular a line
  \<open>"  - Buy milk"\<close> becomes \<open>" -  Buy milk"\<close>.
\<close>

theorem fix_bullet_format_contract:
  "split_nl (fix_bullet_format W t) = map (fix_bullet_line W) (split_nl t)
   \<and> (\<forall>line \<in> set (split_nl t).
        ((\<exists>ind mk gap c. spec_bullet_match line ind mk gap c) \<longrightarrow>
           (\<exists>ind mk gap c. spec_bullet_match line ind mk gap c
              \<and> fix_bullet_line W line = py '' -  '' @ c
              \<and> (\<forall>ind' mk' gap' c'. spec_bullet_match line ind' mk' gap' c' \<longrightarrow> length c \<le> length c')))
        \<and> (\<not> (\<exists>ind mk gap c. spec_bullet_match line ind mk gap c) \<longrightarrow> fix_bullet_line W line = line))
   \<and> (\<forall>i < length (split_nl t). split_nl t ! i = py ''  - Buy milk''
         \<longrightarrow> split_nl (fix_bullet_format W t) ! i = py '' -  Buy milk'')"
proof -
  have 1: "split_nl (fix_bullet_format W t) = map (fix_bullet_line W) (split_nl t)"
    by (rule split_fix_bullet_format)
  have 2: "(\<exists>ind mk gap c. spec_bullet_match line ind mk gap c) \<longrightarrow>
           (\<exists>ind mk gap c. spec_bullet_match line ind mk gap c
              \<and> fix_bullet_line W line = py '' -  '' @ c
              \<and> (\<forall>ind' mk' gap' c'. spec_bullet_match line ind' mk' gap' c' \<longrightarrow> length c \<le> length c'))"
    if "line \<in> set (split_nl t)" for line
  proof
    assume "\<exists>ind mk gap c. spec_bullet_match line ind mk gap c"
    then obtain ind0 mk0 gap0 c0 where m0: "spec_bullet_match line ind0 mk0 gap0 c0" by blast
    have n: "newline \<notin> set line" using that by (rule split_nl_no_newline)
    from spec_match_content [OF m0] obtain c where c: "bullet_content line = Some c" by blast
    from content_spec_match [OF c n] obtain ind mk gap where m: "spec_bullet_match line ind mk gap c" by blast
    have f: "fix_bullet_line W line = py '' -  '' @ c" using c n by (simp add: fix_bullet_line_eq)
    have "length c \<le> length c'" if "spec_bullet_match line ind' mk' gap' c'" for ind' mk' gap' c'
      using spec_match_content [OF that] c by simp
    with m f show "\<exists>ind mk gap c. spec_bullet_match line ind mk gap c
              \<and> fix_bullet_line W line = py '' -  '' @ c
              \<and> (\<forall>ind' mk' gap' c'. spec_bullet_match line ind' mk' gap' c' \<longrightarrow> length c \<le> length c')"
      by blast
  qed
  have 3: "\<not> (\<exists>ind mk gap c. spec_bullet_match line ind mk gap c) \<longrightarrow> fix_bullet_line W line = line"
    if "line \<in> set (split_nl t)" for line
  proof
    assume a: "\<not> (\<exists>ind mk gap c. spec_bullet_match line ind mk gap c)"
    have n: "newline \<notin> set line" using that by (rule split_nl_no_newline)
    have "bullet_content line = None"
    proof (cases "bullet_content line")
      case None
      then show ?thesis .
    next
      case (Some c)
      from content_spec_match [OF Some n] a show ?thesis by blast
    qed
    then show "fix_bullet_line W line = line" using n by (simp add: fix_bullet_line_eq)
  qed
  have e: "fix_bullet_line W (py ''  - Buy milk'') = py '' -  Buy milk''"
    by (simp add: ev)
  have 4: "\<forall>i < length (split_nl t). split_nl t ! i = py ''  - Buy milk''
         \<longrightarrow> split_nl (fix_bullet_format W t) ! i = py '' -  Buy milk''"
    using e by (simp add: 1)
  from 1 2 3 4 show ?thesis by blast
qed

theorem fix_bullet_format_contract_witness:
  "split_nl (py ''To do\<newline>  - Buy milk\<newline>-\<newline>\<newline>- '')
     = [py ''To do'', py ''  - Buy milk'', py ''-'', [], py ''- '']
   \<and> split_nl (fix_bullet_format ascii_only (py ''To do\<newline>  - Buy milk\<newline>-\<newline>\<newline>- '')) ! 1
     = py '' -  Buy milk''
   \<and> spec_bullet_match (py ''  - Buy milk'') (py ''  '') (ch CHR ''-'') (py '' '') (py ''Buy milk'')
   \<and> split_nl (fix_bullet_format ascii_only (py ''To do\<newline>  - Buy milk\<newline>-\<newline>\<newline>- ''))
     = [py ''To do'', py '' -  Buy milk'', py ''-'', [], py ''- '']"
proof -
  have s: "split_nl (py ''To do\<newline>  - Buy milk\<newline>-\<newline>\<newline>- '')
     = [py ''To do'', py ''  - Buy milk'', py ''-'', [], py ''- '']"
    by (simp add: py_def ch_def newline_def)
  have m: "spec_bullet_match (py ''  - Buy milk'') (py ''  '') (ch CHR ''-'') (py '' '') (py ''Buy milk'')"
    by (simp add: spec_bullet_match_def py_def ch_def isspace_def newline_def)
  have f: "map (fix_bullet_line ascii_only) [py ''To do'', py ''  - Buy milk'', py ''-'', [], py ''- '']
     = [py ''To do'', py '' -  Buy milk'', py ''-'', [], py ''- '']"
    by (simp add: ev)
  from fix_bullet_format_contract [of ascii_only "py ''To do\<newline>  - Buy milk\<newline>-\<newline>\<newline>- ''"]
  have "split_nl (fix_bullet_format ascii_only (py ''To do\<newline>  - Buy milk\<newline>-\<newline>\<newline>- ''))
     = map (fix_bullet_line ascii_only) (split_nl (py ''To do\<newline>  - Buy milk\<newline>-\<newline>\<newline>- ''))"
    by blast
  moreover
  from fix_bullet_format_contract [of ascii_only "py ''To do\<newline>  - Buy milk\<newline>-\<newline>\<newline>- ''"]
  have "\<forall>i < length (split_nl (py ''To do\<newline>  - Buy milk\<newline>-\<newline>\<newline>- '')).
          split_nl (py ''To do\<newline>  - Buy milk\<newline>-\<newline>\<newline>- '') ! i = py ''  - Buy milk''
         \<longrightarrow> split_nl (fix_bullet_format ascii_only (py ''To do\<newline>  - Buy milk\<newline>-\<newline>\<newline>- '')) ! i
             = py '' -  Buy milk''"
    by blast
  then have "split_nl (fix_bullet_format ascii_only (py ''To do\<newline>  - Buy milk\<newline>-\<newline>\<newline>- '')) ! 1
     = py '' -  Buy milk''"
    unfolding s by simp
  ultimately show ?thesis using s m f by simp
qed

section \<open>The error stage\<close>

lemma sepok_not_x: "sepok c \<Longrightarrow> lower_fold c \<noteq> lower_fold (ch CHR ''x'')"
  by (auto simp: sepok_def lower_fold_def ch_def isspace_def)

lemma space_not_L: "isspace c \<Longrightarrow> lower_fold c \<noteq> lower_fold (ch CHR ''L'')"
  by (auto simp: lower_fold_def ch_def isspace_def)

lemma fold_consts:
  "lower_fold (ch CHR ''x'') = ch CHR ''x''" "lower_fold (ch CHR ''L'') = ch CHR ''l''"
  "lower_fold (ch CHR ''M'') = ch CHR ''m''"
  by (simp_all add: lower_fold_def ch_def)

lemma atom_ok_lit: "atom_ok [IGNORECASE] (lit c) y = (lower_fold y = lower_fold (ch c))"
  by (simp add: lit_def)

lemma bt_xl_end:
  "bt W [IGNORECASE] [One (lit CHR ''x''), One (lit CHR ''L''), Wordb] p d m g =
     (case d of
        x # l # r \<Rightarrow>
          if lower_fold x = ch CHR ''x'' \<and> lower_fold l = ch CHR ''l'' \<and> at_wordb W (Some l) r
          then Some (m @ [x, l], g) else None
      | _ \<Rightarrow> None)"
proof (cases d)
  case Nil
  then show ?thesis by simp
next
  case d: (Cons x s2)
  then show ?thesis by (cases s2) (simp_all add: atom_ok_lit fold_consts del: atom_ok.simps)
qed

lemma bt_l_end:
  "bt W [IGNORECASE] [One (lit CHR ''L''), Wordb] p d m g =
     (case d of
        l # r \<Rightarrow> if lower_fold l = ch CHR ''l'' \<and> at_wordb W (Some l) r then Some (m @ [l], g) else None
      | [] \<Rightarrow> None)"
  by (cases d) (simp_all add: atom_ok_lit fold_consts del: atom_ok.simps)

lemma bt_xl_tail:
  "bt W [IGNORECASE] [Star sep, One (lit CHR ''x''), One (lit CHR ''L''), Wordb] p s m g =
     map_option (\<lambda>w. (m @ w, g)) (xl_tail W s)"
proof -
  have pre: "bt W [IGNORECASE] [One (lit CHR ''x''), One (lit CHR ''L''), Wordb] p' (c # s') m' g = None"
    if "atom_ok [IGNORECASE] sep c" for c s' p' m'
    using that sepok_not_x [of c] by (simp add: atom_ok_sep atom_ok_lit del: atom_ok.simps)
  have "bt W [IGNORECASE] (Star sep # [One (lit CHR ''x''), One (lit CHR ''L''), Wordb]) p s m g =
     bt W [IGNORECASE] [One (lit CHR ''x''), One (lit CHR ''L''), Wordb]
       (lastp p (takeWhile (atom_ok [IGNORECASE] sep) s)) (dropWhile (atom_ok [IGNORECASE] sep) s)
       (m @ takeWhile (atom_ok [IGNORECASE] sep) s) g"
    by (rule bt_star_det) (rule pre)
  also have "\<dots> = map_option (\<lambda>w. (m @ w, g)) (xl_tail W s)"
  proof -
    have gen: "(case d of
        x # l # r \<Rightarrow>
          if lower_fold x = ch CHR ''x'' \<and> lower_fold l = ch CHR ''l'' \<and> at_wordb W (Some l) r
          then Some ((m @ t) @ [x, l], g) else None
      | _ \<Rightarrow> None) = map_option (\<lambda>w. (m @ w, g)) (case d of
        x # l # r \<Rightarrow>
          if lower_fold x = ch CHR ''x'' \<and> lower_fold l = ch CHR ''l'' \<and> at_wordb W (Some l) r
          then Some (t @ [x, l]) else None
      | _ \<Rightarrow> None)" for d t
      by (simp split: list.splits)
    show ?thesis unfolding bt_xl_end atom_ok_sep xl_tail_def by (rule gen)
  qed
  finally show ?thesis by simp
qed

lemma bt_x_l_tail:
  "bt W [IGNORECASE] [Star sep, One (lit CHR ''x''), Star Space, One (lit CHR ''L''), Wordb] p s m g =
     map_option (\<lambda>w. (m @ w, g)) (x_l_tail W s)"
proof -
  have pre: "bt W [IGNORECASE] [One (lit CHR ''x''), Star Space, One (lit CHR ''L''), Wordb] p' (c # s') m' g = None"
    if "atom_ok [IGNORECASE] sep c" for c s' p' m'
    using that sepok_not_x [of c] by (simp add: atom_ok_sep atom_ok_lit del: atom_ok.simps)
  have pre2: "bt W [IGNORECASE] [One (lit CHR ''L''), Wordb] p' (c # s') m' g = None"
    if "atom_ok [IGNORECASE] Space c" for c s' p' m'
    using that space_not_L [of c] by (simp add: atom_ok_lit del: atom_ok.simps) simp
  have star2: "bt W [IGNORECASE] (Star Space # [One (lit CHR ''L''), Wordb]) p' s' m' g =
     bt W [IGNORECASE] [One (lit CHR ''L''), Wordb]
       (lastp p' (takeWhile isspace s')) (dropWhile isspace s') (m' @ takeWhile isspace s') g" for p' s' m'
    using bt_star_det [of "[IGNORECASE]" Space W "[One (lit CHR ''L''), Wordb]" g p' s' m', OF pre2]
    by (simp only: atom_ok_space)
  have xs: "bt W [IGNORECASE] [One (lit CHR ''x''), Star Space, One (lit CHR ''L''), Wordb] p' d m' g =
     (case d of
        x # s2 \<Rightarrow>
          if lower_fold x = ch CHR ''x''
          then (case dropWhile isspace s2 of
                  l # r \<Rightarrow>
                    if lower_fold l = ch CHR ''l'' \<and> at_wordb W (Some l) r
                    then Some (m' @ x # takeWhile isspace s2 @ [l], g) else None
                | [] \<Rightarrow> None)
          else None
      | [] \<Rightarrow> None)" for p' d m'
  proof (cases d)
    case Nil
    then show ?thesis by simp
  next
    case (Cons x s2)
    have "bt W [IGNORECASE] [One (lit CHR ''x''), Star Space, One (lit CHR ''L''), Wordb] p' (x # s2) m' g =
       (if lower_fold x = ch CHR ''x''
        then bt W [IGNORECASE] (Star Space # [One (lit CHR ''L''), Wordb]) (Some x) s2 (m' @ [x]) g else None)"
      by (simp add: atom_ok_lit fold_consts del: atom_ok.simps)
    also have "\<dots> = (if lower_fold x = ch CHR ''x''
          then (case dropWhile isspace s2 of
                  l # r \<Rightarrow>
                    if lower_fold l = ch CHR ''l'' \<and> at_wordb W (Some l) r
                    then Some (m' @ x # takeWhile isspace s2 @ [l], g) else None
                | [] \<Rightarrow> None)
          else None)"
    proof -
      have gen: "(case d' of
          l # r \<Rightarrow> if lower_fold l = ch CHR ''l'' \<and> at_wordb W (Some l) r then Some (((m' @ [x]) @ t) @ [l], g) else None
        | [] \<Rightarrow> None) = (case d' of
                  l # r \<Rightarrow>
                    if lower_fold l = ch CHR ''l'' \<and> at_wordb W (Some l) r
                    then Some (m' @ x # t @ [l], g) else None
                | [] \<Rightarrow> None)" for d' t
        by (simp split: list.splits)
      show ?thesis unfolding star2 bt_l_end gen ..
    qed
    finally show ?thesis using Cons by simp
  qed
  have "bt W [IGNORECASE] (Star sep # [One (lit CHR ''x''), Star Space, One (lit CHR ''L''), Wordb]) p s m g =
     bt W [IGNORECASE] [One (lit CHR ''x''), Star Space, One (lit CHR ''L''), Wordb]
       (lastp p (takeWhile (atom_ok [IGNORECASE] sep) s)) (dropWhile (atom_ok [IGNORECASE] sep) s)
       (m @ takeWhile (atom_ok [IGNORECASE] sep) s) g"
    by (rule bt_star_det) (rule pre)
  also have "\<dots> = map_option (\<lambda>w. (m @ w, g)) (x_l_tail W s)"
  proof -
    have gen: "(case d of
        x # s2 \<Rightarrow>
          if lower_fold x = ch CHR ''x''
          then (case dropWhile isspace s2 of
                  l # r \<Rightarrow>
                    if lower_fold l = ch CHR ''l'' \<and> at_wordb W (Some l) r
                    then Some ((m @ t) @ x # takeWhile isspace s2 @ [l], g) else None
                | [] \<Rightarrow> None)
          else None
      | [] \<Rightarrow> None) = map_option (\<lambda>w. (m @ w, g)) (case d of
        x # s2 \<Rightarrow>
          if lower_fold x = ch CHR ''x''
          then (case dropWhile isspace s2 of
                  l # r \<Rightarrow>
                    if lower_fold l = ch CHR ''l'' \<and> at_wordb W (Some l) r
                    then Some (t @ x # takeWhile isspace s2 @ [l]) else None
                | [] \<Rightarrow> None)
          else None
      | [] \<Rightarrow> None)" for d t
    proof (cases d)
      case Nil
      then show ?thesis by simp
    next
      case (Cons x s2)
      then show ?thesis by (cases "dropWhile isspace s2") (simp_all del: dropWhile_eq_Nil_conv)
    qed
    show ?thesis unfolding xs atom_ok_sep x_l_tail_def by (rule gen)
  qed
  finally show ?thesis by simp
qed

lemma bt_error_pattern1:
  "bt W [IGNORECASE] error_pattern1 p s [] [] =
     (case s of [] \<Rightarrow> None
      | c # s1 \<Rightarrow>
          if at_wordb W p (c # s1) \<and> lower_fold c = ch CHR ''m''
          then map_option (\<lambda>w. (c # w, [])) (xl_tail W s1) else None)"
  by (cases s) (simp_all add: error_pattern1_def bt_xl_tail atom_ok_lit fold_consts del: atom_ok.simps)

lemma bt_error_pattern2:
  "bt W [IGNORECASE] error_pattern2 p s [] [] =
     (case s of [] \<Rightarrow> None
      | c # s1 \<Rightarrow>
          if at_wordb W p (c # s1) \<and> lower_fold c = ch CHR ''m''
          then map_option (\<lambda>w. (c # w, [])) (x_l_tail W s1) else None)"
  by (cases s) (simp_all add: error_pattern2_def bt_x_l_tail atom_ok_lit fold_consts del: atom_ok.simps)

lemma bt_error_pattern3:
  "bt W [IGNORECASE] error_pattern3 p s [] [] =
     (case s of [] \<Rightarrow> None
      | c # s1 \<Rightarrow>
          if at_wordb W p (c # s1) \<and> letter_ci c
          then map_option (\<lambda>w. (c # w, [(1, [c])])) (xl_tail W s1) else None)"
proof (cases s)
  case Nil
  then show ?thesis by (simp add: error_pattern3_def)
next
  case (Cons c s1)
  have "bt W [IGNORECASE] error_pattern3 p (c # s1) [] [] =
     (if at_wordb W p (c # s1) \<and> letter_ci c
      then bt W [IGNORECASE] [Star sep, One (lit CHR ''x''), One (lit CHR ''L''), Wordb] (Some c) s1 [c] [(1, [c])]
      else None)"
    by (simp add: error_pattern3_def atom_ok_AZ del: atom_ok.simps)
  then show ?thesis using Cons by (simp add: bt_xl_tail)
qed

lemma sub_scan_append:
  assumes "\<And>u1 u2 m g. u = u1 @ u2 \<Longrightarrow> u2 \<noteq> [] \<Longrightarrow>
             bt W fl pat (lastp p u1) (u2 @ v) [] [] = Some (m, g) \<Longrightarrow> length m \<le> length u2"
    and "k \<le> length u"
  shows "\<exists>X. sub_scan W fl pat repl k p (u @ v) = X @ sub_scan W fl pat repl 0 (lastp p u) v"
  using assms
proof (induction u arbitrary: k p)
  case Nil
  then show ?case by simp
next
  case (Cons c u)
  have st: "length m \<le> length u2"
    if "u = u1 @ u2" "u2 \<noteq> []" "bt W fl pat (lastp (Some c) u1) (u2 @ v) [] [] = Some (m, g)" for u1 u2 m g
    using Cons.prems(1) [of "c # u1" u2 m g] that by simp
  have ih: "\<exists>X. sub_scan W fl pat repl k' (Some c) (u @ v) = X @ sub_scan W fl pat repl 0 (lastp (Some c) u) v"
    if "k' \<le> length u" for k'
    by (rule Cons.IH [OF st that])
  show ?case
  proof (cases k)
    case (Suc k')
    then have "k' \<le> length u" using Cons.prems(2) by simp
    from ih [OF this] show ?thesis using Suc by simp
  next
    case 0
    show ?thesis
    proof (cases "bt W fl pat p (c # u @ v) [] []")
      case None
      from ih [of 0] obtain X where
        "sub_scan W fl pat repl 0 (Some c) (u @ v) = X @ sub_scan W fl pat repl 0 (lastp (Some c) u) v"
        by auto
      then have "sub_scan W fl pat repl 0 p ((c # u) @ v) = (c # X) @ sub_scan W fl pat repl 0 (lastp p (c # u)) v"
        using None by simp
      then show ?thesis using 0 by blast
    next
      case (Some res)
      obtain m g where res: "res = (m, g)" by (cases res)
      have "length m \<le> length (c # u)"
        using Cons.prems(1) [of "[]" "c # u" m g] Some res by simp
      then have l: "length m - 1 \<le> length u" by simp
      from ih [OF l] obtain X where
        X: "sub_scan W fl pat repl (length m - 1) (Some c) (u @ v) = X @ sub_scan W fl pat repl 0 (lastp (Some c) u) v"
        by auto
      from ih [of 0] obtain Y where
        Y: "sub_scan W fl pat repl 0 (Some c) (u @ v) = Y @ sub_scan W fl pat repl 0 (lastp (Some c) u) v"
        by auto
      show ?thesis
      proof (cases "m = []")
        case True
        then have "sub_scan W fl pat repl 0 p ((c # u) @ v) = (expand repl g @ c # Y) @ sub_scan W fl pat repl 0 (lastp p (c # u)) v"
          using Some res Y by simp
        then show ?thesis using 0 by blast
      next
        case False
        then have "sub_scan W fl pat repl 0 p ((c # u) @ v) = (expand repl g @ X) @ sub_scan W fl pat repl 0 (lastp p (c # u)) v"
          using Some res X by simp
        then show ?thesis using 0 by blast
      qed
    qed
  qed
qed


lemma xl_tail_chars:
  assumes "xl_tail W s = Some w"
  shows "prefix w s \<and> (\<forall>y \<in> set w. sepok y \<or> lower_fold y = ch CHR ''x'' \<or> lower_fold y = ch CHR ''l'')"
proof -
  from assms obtain x l r where d: "dropWhile sepok s = x # l # r"
    and x: "lower_fold x = ch CHR ''x''" and l: "lower_fold l = ch CHR ''l''"
    and w: "w = takeWhile sepok s @ [x, l]"
    by (auto simp: xl_tail_def split: list.splits if_splits)
  have "s = takeWhile sepok s @ dropWhile sepok s" by simp
  then have "s = w @ r" using d w by simp
  then have "prefix w s" by (metis prefixI)
  moreover have "\<forall>y \<in> set w. sepok y \<or> lower_fold y = ch CHR ''x'' \<or> lower_fold y = ch CHR ''l''"
    using w x l by (auto dest: set_takeWhileD)
  ultimately show ?thesis by simp
qed

lemma x_l_tail_chars:
  assumes "x_l_tail W s = Some w"
  shows "prefix w s \<and> (\<forall>y \<in> set w. sepok y \<or> lower_fold y = ch CHR ''x'' \<or> lower_fold y = ch CHR ''l'')"
proof -
  from assms obtain x s2 l r where d: "dropWhile sepok s = x # s2" and d2: "dropWhile isspace s2 = l # r"
    and x: "lower_fold x = ch CHR ''x''" and l: "lower_fold l = ch CHR ''l''"
    and w: "w = takeWhile sepok s @ x # takeWhile isspace s2 @ [l]"
    by (auto simp: x_l_tail_def split: list.splits if_splits)
  have "s = takeWhile sepok s @ dropWhile sepok s" "s2 = takeWhile isspace s2 @ dropWhile isspace s2" by simp_all
  then have "s = w @ r" using d d2 w by (metis append.assoc append_Cons append_Nil)
  then have "prefix w s" by (metis prefixI)
  moreover have "\<forall>y \<in> set w. sepok y \<or> lower_fold y = ch CHR ''x'' \<or> lower_fold y = ch CHR ''l''"
    using w x l by (auto simp: sepok_def dest: set_takeWhileD)
  ultimately show ?thesis by simp
qed

lemma error_match_shape:
  assumes "pat = error_pattern1 \<or> pat = error_pattern2 \<or> pat = error_pattern3"
    and "bt W [IGNORECASE] pat p s [] [] = Some (m, g)"
  shows "m \<noteq> [] \<and> prefix m s \<and>
         (\<forall>y \<in> set (tl m). sepok y \<or> lower_fold y = ch CHR ''x'' \<or> lower_fold y = ch CHR ''l'')"
proof -
  from assms obtain c s1 w where s: "s = c # s1" and m: "m = c # w"
    and w: "xl_tail W s1 = Some w \<or> x_l_tail W s1 = Some w"
    by (auto simp: bt_error_pattern1 bt_error_pattern2 bt_error_pattern3 split: list.splits if_splits)
  from w have "prefix w s1 \<and> (\<forall>y \<in> set w. sepok y \<or> lower_fold y = ch CHR ''x'' \<or> lower_fold y = ch CHR ''l'')"
    using xl_tail_chars x_l_tail_chars by blast
  then show ?thesis using s m by simp
qed

lemma straddle_free:
  assumes "\<And>p s m g. bt W fl pat p s [] [] = Some (m, g) \<Longrightarrow> prefix m s \<and> (\<forall>y \<in> set (tl m). Q y)"
    and "v \<noteq> []" "\<not> Q (hd v)"
    and "u2 \<noteq> []" "bt W fl pat p (u2 @ v) [] [] = Some (m, g)"
  shows "length m \<le> length u2"
proof (rule ccontr)
  assume "\<not> length m \<le> length u2"
  then have l: "length u2 < length m" by simp
  from assms(1) [OF assms(5)] have pm: "prefix m (u2 @ v)" and q: "\<forall>y \<in> set (tl m). Q y" by simp_all
  from pm obtain r where r: "u2 @ v = m @ r" by (auto simp: prefix_def)
  have "m ! length u2 = (u2 @ v) ! length u2" using r l by (simp add: nth_append)
  also have "\<dots> = hd v" using assms(2) by (simp add: nth_append hd_conv_nth)
  finally have h: "m ! length u2 = hd v" .
  have "0 < length u2" using assms(4) by simp
  then have "m ! length u2 \<in> set (tl m)"
    using l by (metis Suc_pred' in_set_conv_nth length_tl less_diff_conv nth_tl add.commute plus_1_eq_Suc)
  then show False using q h assms(3) by auto
qed

lemma sub_scan_barrier:
  assumes "pat = error_pattern1 \<or> pat = error_pattern2 \<or> pat = error_pattern3"
    and "v \<noteq> []" "lower_fold (hd v) = ch CHR ''m''"
  shows "\<exists>X. sub_scan W [IGNORECASE] pat repl 0 p (u @ v) = X @ sub_scan W [IGNORECASE] pat repl 0 (lastp p u) v"
proof (rule sub_scan_append)
  show "0 \<le> length u" by simp
next
  fix u1 u2 m g
  assume u2: "u2 \<noteq> []" and b: "bt W [IGNORECASE] pat (lastp p u1) (u2 @ v) [] [] = Some (m, g)"
  have nq: "\<not> (sepok (hd v) \<or> lower_fold (hd v) = ch CHR ''x'' \<or> lower_fold (hd v) = ch CHR ''l'')"
    using assms(3) by (auto simp: sepok_def lower_fold_def ch_def isspace_def split: if_splits)
  show "length m \<le> length u2"
  proof (rule straddle_free [where Q = "\<lambda>y. sepok y \<or> lower_fold y = ch CHR ''x'' \<or> lower_fold y = ch CHR ''l''", OF _ assms(2) nq u2 b])
    fix p' s' m' g'
    assume "bt W [IGNORECASE] pat p' s' [] [] = Some (m', g')"
    from error_match_shape [OF assms(1) this]
    show "prefix m' s' \<and> (\<forall>y \<in> set (tl m'). sepok y \<or> lower_fold y = ch CHR ''x'' \<or> lower_fold y = ch CHR ''l'')"
      by simp
  qed
qed

lemmas cev = py_def ch_def xl_tail_def x_l_tail_def sepok_def letter_ci_def isspace_def lower_fold_def
  at_wordb_def wordp_def isword_def next_char_def

lemma pass1_MxL:
  assumes "\<not> wordp W q"
  shows "sub_scan W [IGNORECASE] error_pattern1 [RLit (py ''MBL'')] 0 q (py ''MxL will attend'' @ post)
    = py ''MBL will attend'' @ sub_scan W [IGNORECASE] error_pattern1 [RLit (py ''MBL'')] 0 (Some (ch CHR ''d'')) post"
  using assms by (simp add: bt_error_pattern1 cev)

lemma pass2_MBL:
  "sub_scan W [IGNORECASE] error_pattern2 [RLit (py ''MBL'')] 0 q (py ''MBL will attend'' @ post)
    = py ''MBL will attend'' @ sub_scan W [IGNORECASE] error_pattern2 [RLit (py ''MBL'')] 0 (Some (ch CHR ''d'')) post"
  by (simp add: bt_error_pattern2 cev)

lemma pass3_MBL:
  "sub_scan W [IGNORECASE] error_pattern3 [RGrp 1, RLit (py ''BL'')] 0 q (py ''MBL will attend'' @ post)
    = py ''MBL will attend'' @ sub_scan W [IGNORECASE] error_pattern3 [RGrp 1, RLit (py ''BL'')] 0 (Some (ch CHR ''d'')) post"
  by (simp add: bt_error_pattern3 cev)

lemma fix_common_errors_eq:
  "fix_common_errors W t =
     re_sub W error_pattern3 [RGrp 1, RLit (py ''BL'')]
       (re_sub W error_pattern2 [RLit (py ''MBL'')]
         (re_sub W error_pattern1 [RLit (py ''MBL'')] t [IGNORECASE]) [IGNORECASE]) [IGNORECASE]"
  by (simp add: fix_common_errors_def patterns_to_fix_def)

lemma fix_common_errors_MxL:
  assumes "pre = [] \<or> \<not> isword W (last pre)"
  shows "\<exists>pre' post'. fix_common_errors W (pre @ py ''MxL will attend'' @ post)
           = pre' @ py ''MBL will attend'' @ post'"
proof -
  have v: "py ''MxL will attend'' @ post \<noteq> []" "lower_fold (hd (py ''MxL will attend'' @ post)) = ch CHR ''m''"
    "py ''MBL will attend'' @ post' \<noteq> []" "lower_fold (hd (py ''MBL will attend'' @ post')) = ch CHR ''m''" for post'
    by (simp_all add: py_def ch_def lower_fold_def)
  have q: "\<not> wordp W (lastp None pre)" using assms by (auto simp: wordp_def lastp_def)
  obtain X1 where "re_sub W error_pattern1 [RLit (py ''MBL'')] (pre @ py ''MxL will attend'' @ post) [IGNORECASE]
      = X1 @ sub_scan W [IGNORECASE] error_pattern1 [RLit (py ''MBL'')] 0 (lastp None pre) (py ''MxL will attend'' @ post)"
    unfolding re_sub_def using sub_scan_barrier [of error_pattern1, OF _ v(1,2)] by blast
  then obtain Y1 where 1: "re_sub W error_pattern1 [RLit (py ''MBL'')] (pre @ py ''MxL will attend'' @ post) [IGNORECASE]
      = X1 @ py ''MBL will attend'' @ Y1"
    using pass1_MxL [OF q] by simp
  obtain X2 where "re_sub W error_pattern2 [RLit (py ''MBL'')] (X1 @ py ''MBL will attend'' @ Y1) [IGNORECASE]
      = X2 @ sub_scan W [IGNORECASE] error_pattern2 [RLit (py ''MBL'')] 0 (lastp None X1) (py ''MBL will attend'' @ Y1)"
    unfolding re_sub_def using sub_scan_barrier [of error_pattern2, OF _ v(3,4)] by blast
  then obtain Y2 where 2: "re_sub W error_pattern2 [RLit (py ''MBL'')] (X1 @ py ''MBL will attend'' @ Y1) [IGNORECASE]
      = X2 @ py ''MBL will attend'' @ Y2"
    using pass2_MBL by simp
  obtain X3 where "re_sub W error_pattern3 [RGrp 1, RLit (py ''BL'')] (X2 @ py ''MBL will attend'' @ Y2) [IGNORECASE]
      = X3 @ sub_scan W [IGNORECASE] error_pattern3 [RGrp 1, RLit (py ''BL'')] 0 (lastp None X2) (py ''MBL will attend'' @ Y2)"
    unfolding re_sub_def using sub_scan_barrier [of error_pattern3, OF _ v(3,4)] by blast
  then obtain Y3 where 3: "re_sub W error_pattern3 [RGrp 1, RLit (py ''BL'')] (X2 @ py ''MBL will attend'' @ Y2) [IGNORECASE]
      = X3 @ py ''MBL will attend'' @ Y3"
    using pass3_MBL by simp
  show ?thesis unfolding fix_common_errors_eq 1 2 3 by blast
qed

lemma fix_common_errors_no_match:
  assumes "re_search W error_pattern1 t [IGNORECASE] = None"
    "re_search W error_pattern2 t [IGNORECASE] = None"
    "re_search W error_pattern3 t [IGNORECASE] = None"
  shows "fix_common_errors W t = t"
  using assms unfolding fix_common_errors_eq re_sub_def re_search_def
  by (simp add: sub_scan_no_match)

lemma sub_scan_skip_all:
  "k = length t \<Longrightarrow> sub_scan W fl pat repl k p t = sub_scan W fl pat repl 0 (lastp p t) []"
  by (induction t arbitrary: k p) auto

lemma error_no_m_no_match:
  assumes "pat = error_pattern1 \<or> pat = error_pattern2"
    and "\<forall>y \<in> set t. lower_fold y \<noteq> ch CHR ''m''"
  shows "search_scan W [IGNORECASE] pat p t = None"
  unfolding search_scan_None_iff
proof (intro allI impI)
  fix pre post assume "t = pre @ post"
  then have "\<forall>y \<in> set post. lower_fold y \<noteq> ch CHR ''m''" using assms(2) by simp
  then show "bt W [IGNORECASE] pat (lastp p pre) post [] [] = None"
    using assms(1) by (cases post) (auto simp: bt_error_pattern1 bt_error_pattern2)
qed

lemma sepok_not_m: "sepok y \<Longrightarrow> lower_fold y \<noteq> ch CHR ''m''"
  by (auto simp: sepok_def lower_fold_def ch_def isspace_def)

lemma xl_tail_exact:
  assumes "list_all sepok sp"
  shows "xl_tail W (sp @ py ''xL'') = Some (sp @ py ''xL'')"
proof -
  have "\<not> sepok (ch CHR ''x'')" by (simp add: sepok_def ch_def isspace_def)
  then have "dropWhile sepok (sp @ py ''xL'') = py ''xL''" "takeWhile sepok (sp @ py ''xL'') = sp"
    using assms by (induction sp) (simp_all add: py_def)
  then show ?thesis by (simp add: xl_tail_def py_def cev)
qed

lemma x_l_tail_exact:
  assumes "list_all sepok sp" "list_all isspace ws"
  shows "x_l_tail W (sp @ ch CHR ''x'' # ws @ [ch CHR ''L'']) = Some (sp @ ch CHR ''x'' # ws @ [ch CHR ''L''])"
proof -
  have "\<not> sepok (ch CHR ''x'')" by (simp add: sepok_def ch_def isspace_def)
  then have 1: "dropWhile sepok (sp @ ch CHR ''x'' # ws @ [ch CHR ''L'']) = ch CHR ''x'' # ws @ [ch CHR ''L'']"
    "takeWhile sepok (sp @ ch CHR ''x'' # ws @ [ch CHR ''L'']) = sp"
    using assms(1) by (induction sp) simp_all
  have "\<not> isspace (ch CHR ''L'')" by (simp add: ch_def isspace_def)
  then have 2: "dropWhile isspace (ws @ [ch CHR ''L'']) = [ch CHR ''L'']"
    "takeWhile isspace (ws @ [ch CHR ''L'']) = ws"
    using assms(2) by (induction ws) simp_all
  have 3: "at_wordb W (Some (ch CHR ''L'')) []"
    by (simp add: at_wordb_def wordp_def isword_def next_char_def ch_def)
  show ?thesis by (simp add: x_l_tail_def 1 2 3 fold_consts)
qed

lemma xl_tail_gap:
  assumes "list_all sepok sp" "ws \<noteq> []" "list_all isspace ws"
  shows "xl_tail W (sp @ ch CHR ''x'' # ws @ [ch CHR ''L'']) = None"
proof -
  have "\<not> sepok (ch CHR ''x'')" by (simp add: sepok_def ch_def isspace_def)
  then have 1: "dropWhile sepok (sp @ ch CHR ''x'' # ws @ [ch CHR ''L'']) = ch CHR ''x'' # ws @ [ch CHR ''L'']"
    using assms(1) by (induction sp) simp_all
  from assms(2,3) obtain w ws' where ws: "ws = w # ws'" "isspace w" by (cases ws) auto
  then have "lower_fold w \<noteq> ch CHR ''l''" by (auto simp: lower_fold_def ch_def isspace_def)
  then show ?thesis unfolding xl_tail_def 1 using ws by simp
qed

lemma sub_whole_match:
  assumes "bt W fl pat None t [] [] = Some (t, g)" "t \<noteq> []" "bt W fl pat (Some (last t)) [] [] [] = None"
  shows "re_sub W pat repl t fl = expand repl g"
proof -
  obtain c t' where t: "t = c # t'" using assms(2) by (cases t) auto
  have "lastp (Some c) t' = Some (last t)" using t by (simp add: lastp_def)
  then show ?thesis
    unfolding re_sub_def using assms(1,3) t
    by (simp add: sub_scan_skip_all [of "length t'" t'])
qed


lemma fold_m_word: "lower_fold c = ch CHR ''m'' \<Longrightarrow> isword W c \<and> letter_ci c"
  by (auto simp: lower_fold_def ch_def isword_def letter_ci_def split: if_splits)

lemma passes_MBL:
  "re_sub W error_pattern2 [RLit (py ''MBL'')] (py ''MBL'') [IGNORECASE] = py ''MBL''"
  "re_sub W error_pattern3 [RGrp 1, RLit (py ''BL'')] (py ''MBL'') [IGNORECASE] = py ''MBL''"
  by (simp_all add: re_sub_def bt_error_pattern2 bt_error_pattern3 cev)

lemma bt_error_at_end:
  "bt W [IGNORECASE] error_pattern1 p [] [] [] = None"
  "bt W [IGNORECASE] error_pattern2 p [] [] [] = None"
  "bt W [IGNORECASE] error_pattern3 p [] [] [] = None"
  by (simp_all add: bt_error_pattern1 bt_error_pattern2 bt_error_pattern3)

lemma fix_common_errors_xL:
  assumes "letter_ci c" "isword W c" "list_all sepok sp"
  shows "fix_common_errors W (c # sp @ py ''xL'') =
           (if lower_fold c = ch CHR ''m'' then py ''MBL'' else c # py ''BL'')"
proof (cases "lower_fold c = ch CHR ''m''")
  case True
  have w: "at_wordb W None (c # sp @ py ''xL'')"
    using assms(2) by (simp add: at_wordb_def wordp_def next_char_def)
  have "bt W [IGNORECASE] error_pattern1 None (c # sp @ py ''xL'') [] [] = Some (c # sp @ py ''xL'', [])"
    using True w by (simp add: bt_error_pattern1 xl_tail_exact [OF assms(3)])
  then have p1: "re_sub W error_pattern1 [RLit (py ''MBL'')] (c # sp @ py ''xL'') [IGNORECASE] = py ''MBL''"
    using sub_whole_match [of W "[IGNORECASE]" error_pattern1 "c # sp @ py ''xL''" "[]" "[RLit (py ''MBL'')]"]
    by (simp add: bt_error_at_end)
  show ?thesis unfolding fix_common_errors_eq p1 passes_MBL using True by simp
next
  case False
  have "\<forall>y \<in> set (c # sp @ py ''xL''). lower_fold y \<noteq> ch CHR ''m''"
    using False assms(3) sepok_not_m by (auto simp: list_all_iff py_def lower_fold_def ch_def)
  then have n: "search_scan W [IGNORECASE] error_pattern1 None (c # sp @ py ''xL'') = None"
    "search_scan W [IGNORECASE] error_pattern2 None (c # sp @ py ''xL'') = None"
    using error_no_m_no_match by blast+
  have w: "at_wordb W None (c # sp @ py ''xL'')"
    using assms(2) by (simp add: at_wordb_def wordp_def next_char_def)
  have "bt W [IGNORECASE] error_pattern3 None (c # sp @ py ''xL'') [] [] = Some (c # sp @ py ''xL'', [(1, [c])])"
    using assms(1) w by (simp add: bt_error_pattern3 xl_tail_exact [OF assms(3)])
  then have p3: "re_sub W error_pattern3 [RGrp 1, RLit (py ''BL'')] (c # sp @ py ''xL'') [IGNORECASE] = c # py ''BL''"
    using sub_whole_match [of W "[IGNORECASE]" error_pattern3 "c # sp @ py ''xL''" "[(1, [c])]" "[RGrp 1, RLit (py ''BL'')]"]
    by (simp add: bt_error_at_end)
  have p1: "re_sub W error_pattern1 [RLit (py ''MBL'')] (c # sp @ py ''xL'') [IGNORECASE] = c # sp @ py ''xL''"
    unfolding re_sub_def using n(1) by (rule sub_scan_no_match)
  have p2: "re_sub W error_pattern2 [RLit (py ''MBL'')] (c # sp @ py ''xL'') [IGNORECASE] = c # sp @ py ''xL''"
    unfolding re_sub_def using n(2) by (rule sub_scan_no_match)
  show ?thesis unfolding fix_common_errors_eq p1 p2 p3 using False by simp
qed

lemma fix_common_errors_M_x_L:
  assumes "lower_fold c = ch CHR ''m''" "list_all sepok sp" "list_all isspace ws"
  shows "fix_common_errors W (c # sp @ ch CHR ''x'' # ws @ [ch CHR ''L'']) = py ''MBL''"
proof (cases "ws = []")
  case True
  have "c # sp @ ch CHR ''x'' # ws @ [ch CHR ''L''] = c # sp @ py ''xL''" using True by (simp add: py_def)
  then show ?thesis using fix_common_errors_xL [of c W sp] fold_m_word [OF assms(1), of W] assms(1,2) by simp
next
  case False
  let ?t = "c # sp @ ch CHR ''x'' # ws @ [ch CHR ''L'']"
  have w: "at_wordb W None ?t"
    using fold_m_word [OF assms(1), of W] by (simp add: at_wordb_def wordp_def next_char_def)
  have "lower_fold y \<noteq> ch CHR ''m''" if "y \<in> set (sp @ ch CHR ''x'' # ws @ [ch CHR ''L''])" for y
  proof -
    from that consider "y \<in> set sp" | "y = ch CHR ''x''" | "y \<in> set ws" | "y = ch CHR ''L''" by auto
    then show ?thesis
    proof cases
      case 1
      then have "sepok y" using assms(2) by (simp add: list_all_iff)
      then show ?thesis by (rule sepok_not_m)
    next
      case 2
      then show ?thesis by (simp add: lower_fold_def ch_def)
    next
      case 3
      then have "sepok y" using assms(3) by (simp add: list_all_iff sepok_def)
      then show ?thesis by (rule sepok_not_m)
    next
      case 4
      then show ?thesis by (simp add: lower_fold_def ch_def)
    qed
  qed
  then have "\<forall>y \<in> set (sp @ ch CHR ''x'' # ws @ [ch CHR ''L'']). lower_fold y \<noteq> ch CHR ''m''" by blast
  then have "search_scan W [IGNORECASE] error_pattern1 (Some c) (sp @ ch CHR ''x'' # ws @ [ch CHR ''L'']) = None"
    using error_no_m_no_match by blast
  moreover have "bt W [IGNORECASE] error_pattern1 None ?t [] [] = None"
    by (simp add: bt_error_pattern1 xl_tail_gap [OF assms(2) False assms(3)])
  ultimately have "search_scan W [IGNORECASE] error_pattern1 None ?t = None" by simp
  then have 1: "re_sub W error_pattern1 [RLit (py ''MBL'')] ?t [IGNORECASE] = ?t"
    unfolding re_sub_def by (rule sub_scan_no_match)
  have "bt W [IGNORECASE] error_pattern2 None ?t [] [] = Some (?t, [])"
    using assms(1) w by (simp add: bt_error_pattern2 x_l_tail_exact [OF assms(2,3)])
  then have 2: "re_sub W error_pattern2 [RLit (py ''MBL'')] ?t [IGNORECASE] = py ''MBL''"
    using sub_whole_match [of W "[IGNORECASE]" error_pattern2 ?t "[]" "[RLit (py ''MBL'')]"]
    by (simp add: bt_error_at_end)
  show ?thesis unfolding fix_common_errors_eq 1 2 passes_MBL ..
qed

lemma sub_scan_skip:
  "k \<le> length s \<Longrightarrow>
   sub_scan W fl pat repl k p s = sub_scan W fl pat repl 0 (lastp p (take k s)) (drop k s)"
proof (induction k arbitrary: p s)
  case 0
  then show ?case by (simp add: lastp_def)
next
  case (Suc k)
  then obtain c s' where s: "s = c # s'" by (cases s) auto
  have "lastp (Some c) (take k s') = lastp p (c # take k s')" by (simp add: lastp_def)
  then show ?case using Suc s by simp
qed

lemma sub_scan_rewrite:
  assumes bM: "\<And>p s. M p s = map_option (\<lambda>(m, g). (m, expand repl g)) (bt W fl pat p s [] [])"
    and ne: "\<And>p s m g. bt W fl pat p s [] [] = Some (m, g) \<Longrightarrow> m \<noteq> [] \<and> prefix m s"
  shows "sub_scan W fl pat repl 0 p s = rewrite_matches M p s"
proof (induction "length s" arbitrary: p s rule: less_induct)
  case less
  show ?case
  proof (cases s)
    case Nil
    have "bt W fl pat p [] [] [] = None"
    proof (cases "bt W fl pat p [] [] []")
      case (Some a)
      then show ?thesis using ne [of p "[]" "fst a" "snd a"] by simp
    qed simp
    then show ?thesis using Nil by simp
  next
    case (Cons c s')
    show ?thesis
    proof (cases "bt W fl pat p (c # s') [] []")
      case None
      then have "M p (c # s') = None" by (simp add: bM)
      moreover have "sub_scan W fl pat repl 0 (Some c) s' = rewrite_matches M (Some c) s'"
        using less [of s' "Some c"] Cons by simp
      ultimately show ?thesis using None Cons by simp
    next
      case (Some a)
      obtain m g where a: "a = (m, g)" by (cases a)
      from ne [OF Some [unfolded a]] have m: "m \<noteq> []" and pm: "prefix m (c # s')" by simp_all
      then obtain w where mw: "m = c # w" and pw: "prefix w s'" by (cases m) auto
      have Mv: "M p (c # s') = Some (m, expand repl g)" using Some a by (simp add: bM)
      have tk: "take (length w) s' = w" using pw by (auto simp: prefix_def)
      have le: "length w \<le> length s'" using pw by (rule prefix_length_le)
      have "sub_scan W fl pat repl 0 p (c # s')
          = expand repl g @ sub_scan W fl pat repl (length w) (Some c) s'"
        using Some a mw by simp
      also have "sub_scan W fl pat repl (length w) (Some c) s'
          = sub_scan W fl pat repl 0 (lastp (Some c) w) (drop (length w) s')"
        using sub_scan_skip [OF le, of W fl pat repl "Some c"] tk by simp
      also have "\<dots> = rewrite_matches M (lastp (Some c) w) (drop (length w) s')"
        using less [of "drop (length w) s'" "lastp (Some c) w"] Cons by simp
      finally show ?thesis using Mv Cons mw by simp
    qed
  qed
qed

lemma error_pass1:
  "re_sub W error_pattern1 [RLit (py ''MBL'')] t [IGNORECASE] = rewrite_matches (error_match1 W) None t"
  unfolding re_sub_def
proof (rule sub_scan_rewrite)
  fix p s
  show "error_match1 W p s = map_option (\<lambda>(m, g). (m, expand [RLit (py ''MBL'')] g))
          (bt W [IGNORECASE] error_pattern1 p s [] [])"
    by (simp add: error_match1_def bt_error_pattern1 option.map_comp comp_def split: list.splits)
next
  fix p s m g
  assume "bt W [IGNORECASE] error_pattern1 p s [] [] = Some (m, g)"
  from error_match_shape [OF _ this] show "m \<noteq> [] \<and> prefix m s" by simp
qed

lemma error_pass2:
  "re_sub W error_pattern2 [RLit (py ''MBL'')] t [IGNORECASE] = rewrite_matches (error_match2 W) None t"
  unfolding re_sub_def
proof (rule sub_scan_rewrite)
  fix p s
  show "error_match2 W p s = map_option (\<lambda>(m, g). (m, expand [RLit (py ''MBL'')] g))
          (bt W [IGNORECASE] error_pattern2 p s [] [])"
    by (simp add: error_match2_def bt_error_pattern2 option.map_comp comp_def split: list.splits)
next
  fix p s m g
  assume "bt W [IGNORECASE] error_pattern2 p s [] [] = Some (m, g)"
  from error_match_shape [OF _ this] show "m \<noteq> [] \<and> prefix m s" by simp
qed

lemma error_pass3:
  "re_sub W error_pattern3 [RGrp 1, RLit (py ''BL'')] t [IGNORECASE] = rewrite_matches (error_match3 W) None t"
  unfolding re_sub_def
proof (rule sub_scan_rewrite)
  fix p s
  show "error_match3 W p s = map_option (\<lambda>(m, g). (m, expand [RGrp 1, RLit (py ''BL'')] g))
          (bt W [IGNORECASE] error_pattern3 p s [] [])"
    by (simp add: error_match3_def bt_error_pattern3 option.map_comp comp_def split: list.splits)
next
  fix p s m g
  assume "bt W [IGNORECASE] error_pattern3 p s [] [] = Some (m, g)"
  from error_match_shape [OF _ this] show "m \<noteq> [] \<and> prefix m s" by simp
qed

lemma fix_common_errors_passes:
  "fix_common_errors W t =
     rewrite_matches (error_match3 W) None
       (rewrite_matches (error_match2 W) None (rewrite_matches (error_match1 W) None t))"
  unfolding fix_common_errors_eq error_pass1 error_pass2 error_pass3 ..

text \<open>
  Claim C4 says that \<open>_fix_common_errors\<close> replaces the word-bounded matches of
  \<open><capital letter>[. ]*xL\<close> by the same letter and \<open>BL\<close>, and alters nothing else.
  The code also rewrites \<open>M x L\<close>, which that pattern does not match, writes a
  capital \<open>M\<close> for a small one, and takes any whitespace for a separator, a newline
  included.
\<close>

theorem fix_common_errors_counterexample:
  "fix_common_errors ascii_only (py ''M x L'') = py ''MBL''
   \<and> spec_fix_common_errors ascii_only (py ''M x L'') = py ''M x L''
   \<and> fix_common_errors ascii_only (py ''mxL'') = py ''MBL''
   \<and> spec_fix_common_errors ascii_only (py ''mxL'') = py ''mBL''
   \<and> fix_common_errors ascii_only (py ''A\<newline>xL'') = py ''ABL''
   \<and> spec_fix_common_errors ascii_only (py ''A\<newline>xL'') = py ''A\<newline>xL''"
proof -
  have 1: "fix_common_errors ascii_only (py ''M x L'') = py ''MBL''" by (simp add: ev)
  have 2: "spec_fix_common_errors ascii_only (py ''M x L'') = py ''M x L''" by (simp add: ev)
  have 3: "fix_common_errors ascii_only (py ''mxL'') = py ''MBL''" by (simp add: ev)
  have 4: "spec_fix_common_errors ascii_only (py ''mxL'') = py ''mBL''" by (simp add: ev)
  have 5: "fix_common_errors ascii_only (py ''A\<newline>xL'') = py ''ABL''" by (simp add: ev)
  have 6: "spec_fix_common_errors ascii_only (py ''A\<newline>xL'') = py ''A\<newline>xL''" by (simp add: ev)
  from 1 2 3 4 5 6 show ?thesis by simp
qed

text \<open>
  Claim C4, amended.  For every text, \<open>_fix_common_errors\<close> makes three passes, each
  case-insensitive and word-bounded, and each replaces every match of its pattern,
  taken from the left, and alters nothing outside the matches: \<open>M[.\s]*xL\<close> becomes
  \<open>MBL\<close>, then \<open>M[.\s]*x\s*L\<close> becomes \<open>MBL\<close>, then \<open><letter>[.\s]*xL\<close> becomes the
  same letter and \<open>BL\<close>.  So a text in which none of the three patterns matches comes
  back unaltered.  A text that is one letter (a word character), separators and \<open>xL\<close>
  becomes that letter and \<open>BL\<close>, or \<open>MBL\<close> when the letter is \<open>m\<close> or \<open>M\<close>; one that
  is \<open>M\<close>, separators, \<open>x\<close>, whitespace and \<open>L\<close> becomes \<open>MBL\<close>.  A text that holds
  \<open>MxL will attend\<close> at its start or behind a non-word character gives one that holds
  \<open>MBL will attend\<close>.
\<close>

theorem fix_common_errors_contract:
  "fix_common_errors W t =
     rewrite_matches (error_match3 W) None
       (rewrite_matches (error_match2 W) None (rewrite_matches (error_match1 W) None t))
   \<and> (re_search W error_pattern1 t [IGNORECASE] = None \<and> re_search W error_pattern2 t [IGNORECASE] = None
      \<and> re_search W error_pattern3 t [IGNORECASE] = None
     \<longrightarrow> fix_common_errors W t = t)
   \<and> (letter_ci c \<and> isword W c \<and> list_all sepok sp
     \<longrightarrow> fix_common_errors W (c # sp @ py ''xL'')
         = (if lower_fold c = ch CHR ''m'' then py ''MBL'' else c # py ''BL''))
   \<and> (lower_fold d = ch CHR ''m'' \<and> list_all sepok sp \<and> list_all isspace ws
     \<longrightarrow> fix_common_errors W (d # sp @ ch CHR ''x'' # ws @ [ch CHR ''L'']) = py ''MBL'')
   \<and> (pre = [] \<or> \<not> isword W (last pre)
     \<longrightarrow> (\<exists>pre' post'. fix_common_errors W (pre @ py ''MxL will attend'' @ post)
                       = pre' @ py ''MBL will attend'' @ post'))"
  using fix_common_errors_passes [of W t]
    fix_common_errors_no_match [of W t] fix_common_errors_xL [of c W sp]
    fix_common_errors_M_x_L [of d sp ws W] fix_common_errors_MxL [of pre W post]
  by blast

theorem fix_common_errors_contract_witness:
  "fix_common_errors ascii_only (py ''Attendees: MxL, j. xL, M x L, KxLs'')
     = py ''Attendees: MBL, jBL, MBL, KxLs''
   \<and> fix_common_errors ascii_only (py ''hello'') = py ''hello''
   \<and> fix_common_errors ascii_only (py ''A. xL'') = py ''ABL''
   \<and> fix_common_errors ascii_only (py ''M. x  L'') = py ''MBL''
   \<and> (\<exists>pre' post'. fix_common_errors ascii_only (py ''Then MxL will attend.'')
                       = pre' @ py ''MBL will attend'' @ post')"
proof -
  note T = fix_common_errors_contract [of ascii_only "py ''hello''" "ch CHR ''A''" "py ''. ''"
      "ch CHR ''M''" "py ''  ''" "py ''Then ''" "py ''.''"]
  note U = fix_common_errors_contract [of ascii_only "py ''Attendees: MxL, j. xL, M x L, KxLs''"]
  have r: "rewrite_matches (error_match3 ascii_only) None
       (rewrite_matches (error_match2 ascii_only) None (rewrite_matches (error_match1 ascii_only) None
          (py ''Attendees: MxL, j. xL, M x L, KxLs''))) = py ''Attendees: MBL, jBL, MBL, KxLs''"
    by (simp add: error_match1_def error_match2_def error_match3_def cev ascii_only_def lastp_def)
  from U have "fix_common_errors ascii_only (py ''Attendees: MxL, j. xL, M x L, KxLs'') =
     rewrite_matches (error_match3 ascii_only) None
       (rewrite_matches (error_match2 ascii_only) None (rewrite_matches (error_match1 ascii_only) None
          (py ''Attendees: MxL, j. xL, M x L, KxLs'')))" by (rule conjunct1)
  then have 0: "fix_common_errors ascii_only (py ''Attendees: MxL, j. xL, M x L, KxLs'')
     = py ''Attendees: MBL, jBL, MBL, KxLs''" unfolding r .
  have h1: "re_search ascii_only error_pattern1 (py ''hello'') [IGNORECASE] = None"
    "re_search ascii_only error_pattern2 (py ''hello'') [IGNORECASE] = None"
    "re_search ascii_only error_pattern3 (py ''hello'') [IGNORECASE] = None"
    by (simp_all add: ev)
  have h2: "letter_ci (ch CHR ''A'')" "isword ascii_only (ch CHR ''A'')" "list_all sepok (py ''. '')"
    "lower_fold (ch CHR ''A'') \<noteq> ch CHR ''m''"
    by (simp_all add: cev)
  have h3: "lower_fold (ch CHR ''M'') = ch CHR ''m''" "list_all isspace (py ''  '')"
    by (simp_all add: cev)
  have h4: "\<not> isword ascii_only (last (py ''Then ''))" by (simp add: cev)
  have e: "ch CHR ''A'' # py ''. '' @ py ''xL'' = py ''A. xL''" "ch CHR ''A'' # py ''BL'' = py ''ABL''"
    "ch CHR ''M'' # py ''. '' @ ch CHR ''x'' # py ''  '' @ [ch CHR ''L''] = py ''M. x  L''"
    "py ''Then '' @ py ''MxL will attend'' @ py ''.'' = py ''Then MxL will attend.''"
    by (simp_all add: py_def)
  from T h1 have 1: "fix_common_errors ascii_only (py ''hello'') = py ''hello''" by blast
  from T h2 have "fix_common_errors ascii_only (ch CHR ''A'' # py ''. '' @ py ''xL'') = ch CHR ''A'' # py ''BL''"
    by presburger
  then have 2: "fix_common_errors ascii_only (py ''A. xL'') = py ''ABL''" unfolding e .
  from T h2(3) h3 have "fix_common_errors ascii_only (ch CHR ''M'' # py ''. '' @ ch CHR ''x'' # py ''  '' @ [ch CHR ''L'']) = py ''MBL''"
    by blast
  then have 3: "fix_common_errors ascii_only (py ''M. x  L'') = py ''MBL''" unfolding e .
  from T h4 have "\<exists>pre' post'. fix_common_errors ascii_only (py ''Then '' @ py ''MxL will attend'' @ py ''.'')
                       = pre' @ py ''MBL will attend'' @ post'" by blast
  then have 4: "\<exists>pre' post'. fix_common_errors ascii_only (py ''Then MxL will attend.'')
                       = pre' @ py ''MBL will attend'' @ post'" unfolding e .
  from 0 1 2 3 4 show ?thesis by blast
qed

section \<open>The header stage\<close>

lemma sub_scan_midline:
  assumes A1: "\<And>p s. \<not> at_bol fl p \<Longrightarrow> bt W fl pat p s [] [] = None"
    and "newline \<notin> set l" "p \<noteq> None" "p \<noteq> Some newline" "k \<le> length l"
  shows "sub_scan W fl pat repl k p (l @ rest) = drop k l @ sub_scan W fl pat repl 0 (lastp p l) rest"
  using assms(2-)
proof (induction l arbitrary: k p)
  case Nil
  then show ?case by simp
next
  case (Cons c l)
  then have c: "c \<noteq> newline" "newline \<notin> set l" by auto
  have ih: "sub_scan W fl pat repl k' (Some c) (l @ rest) = drop k' l @ sub_scan W fl pat repl 0 (lastp (Some c) l) rest"
    if "k' \<le> length l" for k'
    using Cons.IH [OF c(2) _ _ that, of "Some c"] c(1) by simp
  show ?case
  proof (cases k)
    case 0
    have "\<not> at_bol fl p" using Cons.prems(2,3) by (simp add: at_bol_def)
    then have "bt W fl pat p (c # l @ rest) [] [] = None" by (rule A1)
    then show ?thesis using 0 ih [of 0] by simp
  next
    case (Suc k')
    then show ?thesis using ih [of k'] Cons.prems(4) by simp
  qed
qed

lemma sub_scan_line:
  assumes A1: "\<And>p s. \<not> at_bol fl p \<Longrightarrow> bt W fl pat p s [] [] = None"
    and L: "\<And>p l rest. at_bol fl p \<Longrightarrow> newline \<notin> set l \<Longrightarrow> rest = [] \<or> hd rest = newline
              \<Longrightarrow> bt W fl pat p (l @ rest) [] [] = M l"
    and B: "\<And>l m g. M l = Some (m, g) \<Longrightarrow> m \<noteq> [] \<and> length m \<le> length l"
    and "at_bol fl p" "newline \<notin> set l" "rest = [] \<or> hd rest = newline"
  shows "sub_scan W fl pat repl 0 p (l @ rest) =
     line_sub M repl l @ (case rest of [] \<Rightarrow> [] | c # r \<Rightarrow> c # sub_scan W fl pat repl 0 (Some newline) r)"
proof -
  have tail: "sub_scan W fl pat repl 0 q rest = (case rest of [] \<Rightarrow> [] | c # r \<Rightarrow> c # sub_scan W fl pat repl 0 (Some newline) r)"
    if "\<not> at_bol fl q" for q
  proof (cases rest)
    case Nil
    then show ?thesis using A1 [OF that, of "[]"] by simp
  next
    case (Cons c r)
    then have "c = newline" using assms(6) by simp
    then show ?thesis using A1 [OF that, of "c # r"] Cons by simp
  qed
  show ?thesis
  proof (cases l)
    case Nil
    have "M [] = None" using B [of "[]"] by (cases "M []") auto
    then have n: "bt W fl pat p rest [] [] = None" using L [OF assms(4) _ assms(6), of "[]"] by simp
    show ?thesis
    proof (cases rest)
      case Nil
      then show ?thesis using n \<open>l = []\<close> \<open>M [] = None\<close> by (simp add: line_sub_def)
    next
      case (Cons c r)
      then have "c = newline" using assms(6) by simp
      then show ?thesis using n \<open>l = []\<close> \<open>M [] = None\<close> Cons by (simp add: line_sub_def)
    qed
  next
    case (Cons c l')
    then have c: "c \<noteq> newline" "newline \<notin> set l'" using assms(5) by auto
    have q: "\<not> at_bol fl (lastp (Some c) l')"
    proof -
      have "lastp (Some c) l' = Some (last (c # l'))" by (simp add: lastp_def)
      moreover have "last (c # l') \<in> set (c # l')" by (rule last_in_set) simp
      ultimately show ?thesis using c by (auto simp: at_bol_def)
    qed
    have mid: "sub_scan W fl pat repl k (Some c) (l' @ rest) = drop k l' @ sub_scan W fl pat repl 0 (lastp (Some c) l') rest"
      if "k \<le> length l'" for k
      using sub_scan_midline [OF A1 c(2) _ _ that, of "Some c"] c(1) by simp
    have b: "bt W fl pat p (c # l' @ rest) [] [] = M l" using L [OF assms(4,5,6)] Cons by simp
    show ?thesis
    proof (cases "M l")
      case None
      then show ?thesis using b Cons mid [of 0] tail [OF q] by (simp add: line_sub_def)
    next
      case (Some res)
      obtain m g where res: "res = (m, g)" by (cases res)
      from B [of l m g] Some res have m: "m \<noteq> []" "length m \<le> length l" by simp_all
      then have k: "length m - 1 \<le> length l'" using Cons by simp
      have "drop (length m - 1) l' = drop (length m) l" using m Cons by (cases m) simp_all
      then show ?thesis using b Cons Some res m mid [OF k] tail [OF q] by (simp add: line_sub_def)
    qed
  qed
qed


lemma join_nl_Cons: "ls \<noteq> [] \<Longrightarrow> join_nl (a # ls) = a @ newline # join_nl ls"
  by (cases ls) simp_all

lemma sub_lines:
  assumes A1: "\<And>p s. \<not> at_bol fl p \<Longrightarrow> bt W fl pat p s [] [] = None"
    and L: "\<And>p l rest. at_bol fl p \<Longrightarrow> newline \<notin> set l \<Longrightarrow> rest = [] \<or> hd rest = newline
              \<Longrightarrow> bt W fl pat p (l @ rest) [] [] = M l"
    and B: "\<And>l m g. M l = Some (m, g) \<Longrightarrow> m \<noteq> [] \<and> length m \<le> length l"
    and Mu: "MULTILINE \<in> set fl"
    and "at_bol fl p"
  shows "sub_scan W fl pat repl 0 p t = join_nl (map (line_sub M repl) (split_nl t))"
  using assms(5)
proof (induction t arbitrary: p rule: length_induct)
  case (1 t)
  show ?case
  proof (cases "newline \<in> set t")
    case False
    have "sub_scan W fl pat repl 0 p (t @ []) = line_sub M repl t @ []"
      using sub_scan_line [where rest = "[]" and repl = repl, OF A1 L B "1.prems" False] by simp
    then show ?thesis using False by (simp add: split_nl_line)
  next
    case True
    then obtain l r where t: "t = l @ newline # r" and l: "newline \<notin> set l"
      by (meson split_list_first)
    have b: "at_bol fl (Some newline)" using Mu by (simp add: at_bol_def)
    have "length r < length t" using t by simp
    then have ih: "sub_scan W fl pat repl 0 (Some newline) r = join_nl (map (line_sub M repl) (split_nl r))"
      using "1.IH" b by blast
    have "sub_scan W fl pat repl 0 p (l @ newline # r) =
        line_sub M repl l @ newline # sub_scan W fl pat repl 0 (Some newline) r"
      using sub_scan_line [where rest = "newline # r" and repl = repl, OF A1 L B "1.prems" l] by simp
    moreover have "map (line_sub M repl) (split_nl r) \<noteq> []" using split_nl_nonempty by simp
    ultimately show ?thesis using t l ih by (simp add: split_nl_append join_nl_Cons)
  qed
qed

lemma length_py [simp]: "length (py s) = length s"
  by (simp add: py_def)

lemma py_append: "py (a @ b) = py a @ py b"
  by (simp add: py_def)

lemma prefix_ci_snoc:
  "prefix_ci (w @ [a]) s \<longleftrightarrow>
     prefix_ci w s \<and> (case drop (length w) s of [] \<Rightarrow> False | c # _ \<Rightarrow> lower_fold c = lower_fold a)"
proof (cases "length w < length s")
  case False
  then show ?thesis by (auto simp: prefix_ci_def)
next
  case True
  then obtain c r where d: "drop (length w) s = c # r"
    by (metis drop_eq_Nil2 leD list.exhaust)
  have t: "take (Suc (length w)) s = take (length w) s @ [c]"
    using d by (metis True hd_drop_conv_nth list.sel(1) take_Suc_conv_app_nth)
  show ?thesis using True d t by (auto simp: prefix_ci_def)
qed

lemma bt_grp_lits:
  assumes "IGNORECASE \<in> set fl"
  shows "bt W fl (Grp n (lits K) # r) p s m g =
     (if prefix_ci (py K) s
      then bt W fl r (lastp p (take (length K) s)) (drop (length K) s) (m @ take (length K) s)
             ((n, take (length K) s) # g)
      else None)"
proof -
  have "bt W fl (Grp n (lits K) # r) p s m g =
      bt W fl (map (\<lambda>c. One (Lit c)) (py K) @ Close n (length m) # r) p s m g"
    by (simp add: lits_py)
  also have "\<dots> = (if length (py K) \<le> length s \<and> list_all2 (lit_ok fl) (py K) (take (length (py K)) s)
      then bt W fl (Close n (length m) # r) (lastp p (take (length (py K)) s)) (drop (length (py K)) s)
             (m @ take (length (py K)) s) g
      else None)"
    by (rule bt_lits)
  also have "\<dots> = (if prefix_ci (py K) s
      then bt W fl r (lastp p (take (length K) s)) (drop (length K) s) (m @ take (length K) s)
             ((n, take (length K) s) # g)
      else None)"
    using assms by (auto simp: prefix_ci_def list_all2_lit_ok_ic)
  finally show ?thesis .
qed

lemma atom_ok_lit_ic: "IGNORECASE \<in> set fl \<Longrightarrow> atom_ok fl (lit c) y = (lower_fold y = lower_fold (ch c))"
  by (simp add: lit_def)

lemma bt_one_lit_ic:
  assumes "IGNORECASE \<in> set fl"
  shows "bt W fl [One (lit a)] q d m g =
     (case d of [] \<Rightarrow> None | c # _ \<Rightarrow> if lower_fold c = lower_fold (ch a) then Some (m @ [c], g) else None)"
  using assms by (cases d) (simp_all add: lit_def)

lemma bt_header_pattern1:
  assumes "IGNORECASE \<in> set fl"
  shows "bt W fl (header_pattern1 K) p s [] [] =
     (if at_bol fl p \<and> prefix_ci (py K @ py '':'') s
      then Some (take (Suc (length K)) s, [(1, take (length K) s)]) else None)"
proof -
  have 1: "bt W fl (header_pattern1 K) p s [] [] =
     (if at_bol fl p then bt W fl (Grp 1 (lits K) # [One (lit CHR '':'')]) p s [] [] else None)"
    by (simp only: header_pattern1_def bt.simps(10))
  have e: "py K @ py '':'' = py K @ [ch CHR '':'']" by (simp add: py_def)
  show ?thesis
  proof (cases "drop (length K) s")
    case Nil
    then show ?thesis unfolding 1 bt_grp_lits [OF assms] bt_one_lit_ic [OF assms] e
      using prefix_ci_snoc [of "py K" "ch CHR '':''" s] by simp
  next
    case (Cons c r)
    then have "length K < length s" by (metis drop_eq_Nil2 leI list.distinct(1))
    then have t: "take (Suc (length K)) s = take (length K) s @ [c]"
      using Cons by (metis hd_drop_conv_nth list.sel(1) take_Suc_conv_app_nth)
    show ?thesis unfolding 1 bt_grp_lits [OF assms] bt_one_lit_ic [OF assms] e
      using Cons t prefix_ci_snoc [of "py K" "ch CHR '':''" s] by simp
  qed
qed

lemma bt_header_pattern2:
  assumes "IGNORECASE \<in> set fl"
  shows "bt W fl (header_pattern2 K) p s [] [] =
     (if at_bol fl p \<and> prefix_ci (py K) s \<and> at_eol fl (drop (length K) s)
      then Some (take (length K) s, [(1, take (length K) s)]) else None)"
proof -
  have 1: "bt W fl (header_pattern2 K) p s [] [] =
     (if at_bol fl p then bt W fl (Grp 1 (lits K) # [Eol]) p s [] [] else None)"
    by (simp only: header_pattern2_def bt.simps(10))
  show ?thesis unfolding 1 bt_grp_lits [OF assms] by simp
qed

lemma lower_fold_newline: "lower_fold c = lower_fold newline \<longleftrightarrow> c = newline"
  by (auto simp: lower_fold_def newline_def)

lemma bt_header_pattern3:
  assumes "IGNORECASE \<in> set fl" "bt W fl (header_pattern3 K) p s [] [] \<noteq> None"
  shows "\<exists>s'. s = newline # s' \<and> prefix_ci (py K @ py '':'') s'"
proof (cases s)
  case Nil
  then show ?thesis using assms(2) by (simp add: header_pattern3_def)
next
  case (Cons c s')
  have 1: "bt W fl (header_pattern3 K) p (c # s') [] [] =
     (if c = newline then bt W fl (Grp 1 (lits K) # [One (lit CHR '':'')]) (Some c) s' [c] [] else None)"
    using assms(1) by (simp add: header_pattern3_def lower_fold_newline del: bt.simps(8))
  have e: "py K @ py '':'' = py K @ [ch CHR '':'']" by (simp add: py_def)
  have a: "bt W fl (header_pattern3 K) p (c # s') [] [] \<noteq> None" using assms(2) Cons by simp
  from a [unfolded 1] have c: "c = newline" by metis
  from a [unfolded 1] have b: "bt W fl (Grp 1 (lits K) # [One (lit CHR '':'')]) (Some c) s' [c] [] \<noteq> None"
    by metis
  from b [unfolded bt_grp_lits [OF assms(1)]] have k: "prefix_ci (py K) s'" by metis
  from b [unfolded bt_grp_lits [OF assms(1)]]
  have "bt W fl [One (lit CHR '':'')] (lastp (Some c) (take (length K) s')) (drop (length K) s')
           ([c] @ take (length K) s') [(1, take (length K) s')] \<noteq> None"
    by metis
  then have "prefix_ci (py K @ py '':'') s'"
    unfolding bt_one_lit_ic [OF assms(1)] e prefix_ci_snoc [of "py K"] using k
    by (cases "drop (length K) s'") (simp_all split: if_splits)
  then show ?thesis using c Cons by simp
qed

lemma bt_header_pattern4:
  assumes "IGNORECASE \<in> set fl" "bt W fl (header_pattern4 K) p s [] [] \<noteq> None"
  shows "\<exists>s'. s = newline # s' \<and> prefix_ci (py K) s' \<and> next_char (drop (length K) s') = Some newline"
proof (cases s)
  case Nil
  then show ?thesis using assms(2) by (simp add: header_pattern4_def)
next
  case (Cons c s')
  have 1: "bt W fl (header_pattern4 K) p (c # s') [] [] =
     (if c = newline then bt W fl (Grp 1 (lits K) # [One (Lit newline)]) (Some c) s' [c] [] else None)"
    using assms(1) by (simp add: header_pattern4_def lower_fold_newline del: bt.simps(8))
  have a: "bt W fl (header_pattern4 K) p (c # s') [] [] \<noteq> None" using assms(2) Cons by simp
  from a [unfolded 1] have c: "c = newline" by metis
  from a [unfolded 1] have b: "bt W fl (Grp 1 (lits K) # [One (Lit newline)]) (Some c) s' [c] [] \<noteq> None"
    by metis
  from b [unfolded bt_grp_lits [OF assms(1)]] have k: "prefix_ci (py K) s'" by metis
  from b [unfolded bt_grp_lits [OF assms(1)]]
  have "bt W fl [One (Lit newline)] (lastp (Some c) (take (length K) s')) (drop (length K) s')
           ([c] @ take (length K) s') [(1, take (length K) s')] \<noteq> None"
    by metis
  then have "next_char (drop (length K) s') = Some newline"
    using assms(1) by (cases "drop (length K) s'") (simp_all add: next_char_def lower_fold_newline split: if_splits)
  then show ?thesis using c k Cons by simp
qed

lemma bt_lit_list_ic:
  assumes "IGNORECASE \<in> set fl"
  shows "bt W fl (map (\<lambda>c. One (Lit c)) w) p t m g \<noteq> None \<longleftrightarrow> prefix_ci w t"
  using bt_lits [of W fl w "[]" p t m g] assms
  by (auto simp: prefix_ci_def list_all2_lit_ok_ic simp del: lit_ok.simps)

lemma search_lit_list_ic:
  assumes "IGNORECASE \<in> set fl"
  shows "re_search W (map (\<lambda>c. One (Lit c)) w) t fl \<noteq> None \<longleftrightarrow> contains_ci w t"
proof
  assume "re_search W (map (\<lambda>c. One (Lit c)) w) t fl \<noteq> None"
  then have "search_scan W fl (map (\<lambda>c. One (Lit c)) w) None t \<noteq> None" by (simp add: re_search_def)
  then obtain pre post where e: "t = pre @ post"
    and b: "bt W fl (map (\<lambda>c. One (Lit c)) w) (lastp None pre) post [] [] \<noteq> None"
    by (rule search_scan_SomeE)
  from b have "prefix_ci w post" using bt_lit_list_ic [OF assms] by blast
  then show "contains_ci w t" unfolding contains_ci_iff using e by blast
next
  assume "contains_ci w t"
  then obtain pre post where e: "t = pre @ post" and q: "prefix_ci w post"
    unfolding contains_ci_iff by blast
  from q have "bt W fl (map (\<lambda>c. One (Lit c)) w) (lastp None pre) post [] [] \<noteq> None"
    using bt_lit_list_ic [OF assms] by blast
  with e have "search_scan W fl (map (\<lambda>c. One (Lit c)) w) None t \<noteq> None" by (rule search_scan_SomeI)
  then show "re_search W (map (\<lambda>c. One (Lit c)) w) t fl \<noteq> None" by (simp add: re_search_def)
qed

lemma search_wrapped:
  "re_search W (wrapped_pattern K) t [IGNORECASE, MULTILINE] = None \<longleftrightarrow> \<not> wrapped K t"
proof -
  have e: "wrapped_pattern K = map (\<lambda>c. One (Lit c)) (py ''**'' @ py K @ py ''**'')"
    by (simp only: wrapped_pattern_def lits_py map_append)
  have i: "IGNORECASE \<in> set [IGNORECASE, MULTILINE]" by simp
  show ?thesis unfolding e wrapped_def
    using search_lit_list_ic [OF i, of W "py ''**'' @ py K @ py ''**''" t] by blast
qed

lemma sub_scan_has_match:
  assumes "search_scan W fl pat p t \<noteq> None"
  shows "\<exists>pre post m g X Y. t = pre @ post \<and> bt W fl pat (lastp p pre) post [] [] = Some (m, g)
           \<and> sub_scan W fl pat repl 0 p t = X @ expand repl g @ Y"
  using assms
proof (induction t arbitrary: p)
  case Nil
  then obtain m g where b: "bt W fl pat p [] [] [] = Some (m, g)" by auto
  then have "sub_scan W fl pat repl 0 p [] = [] @ expand repl g @ []" by simp
  with b show ?case by (metis append_Nil lastp_simps(1))
next
  case (Cons c t)
  show ?case
  proof (cases "bt W fl pat p (c # t) [] []")
    case None
    then have "search_scan W fl pat (Some c) t \<noteq> None" using Cons.prems by simp
    from Cons.IH [OF this] obtain pre post m g X Y where e: "t = pre @ post"
      and b: "bt W fl pat (lastp (Some c) pre) post [] [] = Some (m, g)"
      and s: "sub_scan W fl pat repl 0 (Some c) t = X @ expand repl g @ Y" by blast
    have "c # t = (c # pre) @ post" using e by simp
    moreover have "bt W fl pat (lastp p (c # pre)) post [] [] = Some (m, g)" using b by simp
    moreover have "sub_scan W fl pat repl 0 p (c # t) = (c # X) @ expand repl g @ Y" using None s by simp
    ultimately show ?thesis by blast
  next
    case (Some res)
    obtain m g where res: "res = (m, g)" by (cases res)
    have "\<exists>Y. sub_scan W fl pat repl 0 p (c # t) = [] @ expand repl g @ Y"
      using Some res by (cases "m = []") simp_all
    moreover have "c # t = [] @ (c # t)" "bt W fl pat (lastp p []) (c # t) [] [] = Some (m, g)"
      using Some res by simp_all
    ultimately show ?thesis by blast
  qed
qed

lemma expand_header:
  "expand header_replacement [(1, k)] = py ''**'' @ k @ py ''**''"
  by (simp add: header_replacement_def)

lemma wrapped_intro:
  assumes "length k = length K" "map lower_fold k = map lower_fold (py K)"
  shows "wrapped K (X @ py ''**'' @ k @ py ''**'' @ Y)"
proof -
  have "prefix_ci (py ''**'' @ py K @ py ''**'') (py ''**'' @ k @ py ''**'' @ Y)"
    using assms by (simp add: prefix_ci_def)
  then show ?thesis unfolding wrapped_def contains_ci_iff by blast
qed

lemma prefix_ci_take:
  "prefix_ci (u @ v) s \<Longrightarrow> length (take (length u) s) = length u \<and> map lower_fold (take (length u) s) = map lower_fold u"
proof -
  assume a: "prefix_ci (u @ v) s"
  then have l: "length u + length v \<le> length s" and e: "map lower_fold (take (length u + length v) s) = map lower_fold u @ map lower_fold v"
    by (simp_all add: prefix_ci_def)
  have "take (length u) (map lower_fold (take (length u + length v) s)) = map lower_fold u"
    using e by simp
  then have "map lower_fold (take (length u) s) = map lower_fold u"
    by (simp add: take_map min_def)
  then show ?thesis using l by simp
qed

lemma sub_header_wrapped:
  assumes "pat = header_pattern1 K \<or> pat = header_pattern2 K"
    and "re_search W pat t [MULTILINE, IGNORECASE] \<noteq> None"
  shows "wrapped K (re_sub W pat header_replacement t [MULTILINE, IGNORECASE])"
proof -
  from assms(2) have "search_scan W [MULTILINE, IGNORECASE] pat None t \<noteq> None" by (simp add: re_search_def)
  from sub_scan_has_match [OF this, of header_replacement] obtain pre post m g X Y where
    b: "bt W [MULTILINE, IGNORECASE] pat (lastp None pre) post [] [] = Some (m, g)"
    and s: "re_sub W pat header_replacement t [MULTILINE, IGNORECASE] = X @ expand header_replacement g @ Y"
    unfolding re_sub_def by blast
  have "g = [(1, take (length K) post)] \<and> prefix_ci (py K @ []) post"
    using assms(1) b prefix_ci_snoc [of "py K" "ch CHR '':''" post]
    by (auto simp: bt_header_pattern1 bt_header_pattern2 py_def split: if_splits)
  then have g: "g = [(1, take (length K) post)]"
    and k: "length (take (length K) post) = length K" "map lower_fold (take (length K) post) = map lower_fold (py K)"
    using prefix_ci_take [of "py K" "[]" post] by simp_all
  show ?thesis unfolding s g expand_header using wrapped_intro [OF k] by simp
qed


lemma search_pattern3_none:
  assumes "re_search W (header_pattern1 K) t [MULTILINE, IGNORECASE] = None"
  shows "re_search W (header_pattern3 K) t [MULTILINE, IGNORECASE] = None"
proof (rule ccontr)
  assume "re_search W (header_pattern3 K) t [MULTILINE, IGNORECASE] \<noteq> None"
  then have "search_scan W [MULTILINE, IGNORECASE] (header_pattern3 K) None t \<noteq> None"
    by (simp add: re_search_def)
  then obtain pre post where e: "t = pre @ post"
    and b: "bt W [MULTILINE, IGNORECASE] (header_pattern3 K) (lastp None pre) post [] [] \<noteq> None"
    by (rule search_scan_SomeE)
  from bt_header_pattern3 [OF _ b] obtain s' where p: "post = newline # s'"
    and k: "prefix_ci (py K @ py '':'') s'" by auto
  have "bt W [MULTILINE, IGNORECASE] (header_pattern1 K) (lastp None (pre @ [newline])) s' [] [] \<noteq> None"
    using k by (simp add: bt_header_pattern1 at_bol_def)
  moreover have "t = (pre @ [newline]) @ s'" using e p by simp
  ultimately have "search_scan W [MULTILINE, IGNORECASE] (header_pattern1 K) None t \<noteq> None"
    using search_scan_SomeI by blast
  then show False using assms by (simp add: re_search_def)
qed

lemma search_pattern4_none:
  assumes "re_search W (header_pattern2 K) t [MULTILINE, IGNORECASE] = None"
  shows "re_search W (header_pattern4 K) t [MULTILINE, IGNORECASE] = None"
proof (rule ccontr)
  assume "re_search W (header_pattern4 K) t [MULTILINE, IGNORECASE] \<noteq> None"
  then have "search_scan W [MULTILINE, IGNORECASE] (header_pattern4 K) None t \<noteq> None"
    by (simp add: re_search_def)
  then obtain pre post where e: "t = pre @ post"
    and b: "bt W [MULTILINE, IGNORECASE] (header_pattern4 K) (lastp None pre) post [] [] \<noteq> None"
    by (rule search_scan_SomeE)
  from bt_header_pattern4 [OF _ b] obtain s' where p: "post = newline # s'"
    and k: "prefix_ci (py K) s'" "next_char (drop (length K) s') = Some newline" by auto
  have "bt W [MULTILINE, IGNORECASE] (header_pattern2 K) (lastp None (pre @ [newline])) s' [] [] \<noteq> None"
    using k by (simp add: bt_header_pattern2 at_bol_def at_eol_def)
  moreover have "t = (pre @ [newline]) @ s'" using e p by simp
  ultimately have "search_scan W [MULTILINE, IGNORECASE] (header_pattern2 K) None t \<noteq> None"
    using search_scan_SomeI by blast
  then show False using assms by (simp add: re_search_def)
qed

lemma re_sub_no_match:
  "re_search W pat t fl = None \<Longrightarrow> re_sub W pat repl t fl = t"
  unfolding re_search_def re_sub_def by (rule sub_scan_no_match)

lemma format_header_eq:
  "format_header W t K =
     (if wrapped K t then t
      else if re_search W (header_pattern1 K) t [MULTILINE, IGNORECASE] \<noteq> None
      then re_sub W (header_pattern1 K) header_replacement t [MULTILINE, IGNORECASE]
      else re_sub W (header_pattern2 K) header_replacement t [MULTILINE, IGNORECASE])"
proof -
  define f where "f = (\<lambda>t pattern.
        if re_search W (wrapped_pattern K) t [IGNORECASE, MULTILINE] = None
        then re_sub W pattern header_replacement t [MULTILINE, IGNORECASE]
        else t)"
  have fw: "f u pat = u" if "wrapped K u" for u pat
    using that by (simp add: f_def search_wrapped)
  have fn: "f u pat = re_sub W pat header_replacement u [MULTILINE, IGNORECASE]" if "\<not> wrapped K u" for u pat
    using that by (simp add: f_def search_wrapped)
  have fh: "format_header W t K =
      f (f (f (f t (header_pattern1 K)) (header_pattern2 K)) (header_pattern3 K)) (header_pattern4 K)"
    by (simp add: format_header_def header_patterns_def f_def)
  show ?thesis
  proof (cases "wrapped K t")
    case True
    then show ?thesis unfolding fh by (simp add: fw)
  next
    case nw: False
    show ?thesis
    proof (cases "re_search W (header_pattern1 K) t [MULTILINE, IGNORECASE] = None")
      case False
      then have w: "wrapped K (re_sub W (header_pattern1 K) header_replacement t [MULTILINE, IGNORECASE])"
        using sub_header_wrapped by blast
      show ?thesis unfolding fh fn [OF nw] using nw False w by (simp add: fw)
    next
      case n1: True
      have t1: "re_sub W (header_pattern1 K) header_replacement t [MULTILINE, IGNORECASE] = t"
        using n1 by (rule re_sub_no_match)
      show ?thesis
      proof (cases "re_search W (header_pattern2 K) t [MULTILINE, IGNORECASE] = None")
        case False
        then have w: "wrapped K (re_sub W (header_pattern2 K) header_replacement t [MULTILINE, IGNORECASE])"
          using sub_header_wrapped by blast
        show ?thesis unfolding fh fn [OF nw] t1 using nw n1 w by (simp add: fw)
      next
        case n2: True
        have t2: "re_sub W (header_pattern2 K) header_replacement t [MULTILINE, IGNORECASE] = t"
          using n2 by (rule re_sub_no_match)
        have t3: "re_sub W (header_pattern3 K) header_replacement t [MULTILINE, IGNORECASE] = t"
          using search_pattern3_none [OF n1] by (rule re_sub_no_match)
        have t4: "re_sub W (header_pattern4 K) header_replacement t [MULTILINE, IGNORECASE] = t"
          using search_pattern4_none [OF n2] by (rule re_sub_no_match)
        show ?thesis unfolding fh fn [OF nw] t1 t2 t3 t4 using nw n1 by simp
      qed
    qed
  qed
qed

lemma section_headers_plain: "K \<in> set section_headers \<Longrightarrow> plain_header K"
  by (auto simp: section_headers_def plain_header_def py_def ch_def lower_fold_def newline_def)

lemma prefix_ci_line:
  assumes "\<forall>c \<in> set w. lower_fold c \<noteq> newline" "rest = [] \<or> hd rest = newline"
  shows "prefix_ci w (l @ rest) \<longleftrightarrow> prefix_ci w l"
proof
  assume a: "prefix_ci w (l @ rest)"
  show "prefix_ci w l"
  proof (cases "length w \<le> length l")
    case True
    with a show ?thesis by (rule prefix_ci_append_long)
  next
    case False
    then have l: "length l < length w" by simp
    from prefix_ci_append_short [OF a l] have "rest \<noteq> []" "lower_fold (hd rest) = lower_fold (w ! length l)"
      by simp_all
    then have "lower_fold (w ! length l) = newline" using assms(2) by (simp add: lower_fold_def newline_def)
    moreover have "w ! length l \<in> set w" using l by simp
    ultimately show ?thesis using assms(1) by blast
  qed
next
  assume "prefix_ci w l"
  then show "prefix_ci w (l @ rest)" by (rule prefix_ci_append)
qed

lemma header_colon_no_newline:
  assumes "plain_header K"
  shows "\<forall>c \<in> set (py K @ py '':''). lower_fold c \<noteq> newline" "\<forall>c \<in> set (py K). lower_fold c \<noteq> newline"
  using assms by (auto simp: plain_header_def py_def ch_def lower_fold_def newline_def)

lemma colon_match_line:
  assumes "plain_header K" "at_bol [MULTILINE, IGNORECASE] p" "newline \<notin> set l" "rest = [] \<or> hd rest = newline"
  shows "bt W [MULTILINE, IGNORECASE] (header_pattern1 K) p (l @ rest) [] [] = colon_match K l"
proof (cases "colon_line K l")
  case True
  then have "Suc (length K) \<le> length l" by (simp add: colon_line_def prefix_ci_def py_def)
  then have "take (Suc (length K)) (l @ rest) = take (Suc (length K)) l" "take (length K) (l @ rest) = take (length K) l"
    by simp_all
  then show ?thesis using True assms(2) prefix_ci_line [OF header_colon_no_newline(1) [OF assms(1)] assms(4), of l]
    by (simp add: bt_header_pattern1 colon_match_def colon_line_def)
next
  case False
  then show ?thesis using prefix_ci_line [OF header_colon_no_newline(1) [OF assms(1)] assms(4), of l]
    by (simp add: bt_header_pattern1 colon_match_def colon_line_def)
qed

lemma alone_line_iff:
  assumes "plain_header K" "newline \<notin> set l" "rest = [] \<or> hd rest = newline"
  shows "prefix_ci (py K) (l @ rest) \<and> at_eol [MULTILINE, IGNORECASE] (drop (length K) (l @ rest)) \<longleftrightarrow> alone_line K l"
proof
  assume a: "prefix_ci (py K) (l @ rest) \<and> at_eol [MULTILINE, IGNORECASE] (drop (length K) (l @ rest))"
  then have p: "prefix_ci (py K) l"
    using prefix_ci_line [OF header_colon_no_newline(2) [OF assms(1)] assms(3), of l] by simp
  then have k: "length K \<le> length l" by (simp add: prefix_ci_def)
  have "drop (length K) l = []"
  proof (rule ccontr)
    assume n: "drop (length K) l \<noteq> []"
    then obtain c r where d: "drop (length K) l = c # r" by (cases "drop (length K) l") auto
    then have "c \<in> set l" by (metis in_set_dropD list.set_intros(1))
    then have c: "c \<noteq> newline" using assms(2) by auto
    have "drop (length K) (l @ rest) = c # r @ rest" using d k by simp
    then show False using a c by (simp add: at_eol_def next_char_def)
  qed
  then have "length l = length K" using k by simp
  then show "alone_line K l" using p by (simp add: alone_line_def prefix_ci_def)
next
  assume a: "alone_line K l"
  then have "prefix_ci (py K) l" by (simp add: alone_line_def prefix_ci_def)
  then have "prefix_ci (py K) (l @ rest)" by (rule prefix_ci_append)
  moreover have "drop (length K) (l @ rest) = rest" using a by (simp add: alone_line_def)
  moreover have "at_eol [MULTILINE, IGNORECASE] rest"
    using assms(3) by (cases rest) (simp_all add: at_eol_def next_char_def)
  ultimately show "prefix_ci (py K) (l @ rest) \<and> at_eol [MULTILINE, IGNORECASE] (drop (length K) (l @ rest))"
    by simp
qed

lemma alone_match_line:
  assumes "plain_header K" "at_bol [MULTILINE, IGNORECASE] p" "newline \<notin> set l" "rest = [] \<or> hd rest = newline"
  shows "bt W [MULTILINE, IGNORECASE] (header_pattern2 K) p (l @ rest) [] [] = alone_match K l"
proof (cases "alone_line K l")
  case True
  then have "take (length K) (l @ rest) = l" by (simp add: alone_line_def)
  then show ?thesis using True assms(2) alone_line_iff [OF assms(1,3,4)]
    by (simp add: bt_header_pattern2 alone_match_def)
next
  case False
  then show ?thesis using alone_line_iff [OF assms(1,3,4)]
    by (simp add: bt_header_pattern2 alone_match_def)
qed

lemma sub1_lines:
  assumes "plain_header K"
  shows "re_sub W (header_pattern1 K) header_replacement t [MULTILINE, IGNORECASE] =
     join_nl (map (line_sub (colon_match K) header_replacement) (split_nl t))"
  unfolding re_sub_def
proof (rule sub_lines)
  show "\<And>p s. \<not> at_bol [MULTILINE, IGNORECASE] p \<Longrightarrow>
           bt W [MULTILINE, IGNORECASE] (header_pattern1 K) p s [] [] = None"
    by (simp add: bt_header_pattern1)
  show "\<And>p l rest. at_bol [MULTILINE, IGNORECASE] p \<Longrightarrow> newline \<notin> set l \<Longrightarrow> rest = [] \<or> hd rest = newline \<Longrightarrow>
           bt W [MULTILINE, IGNORECASE] (header_pattern1 K) p (l @ rest) [] [] = colon_match K l"
    by (rule colon_match_line [OF assms])
  show "\<And>l m g. colon_match K l = Some (m, g) \<Longrightarrow> m \<noteq> [] \<and> length m \<le> length l"
    by (auto simp: colon_match_def colon_line_def prefix_ci_def py_def split: if_splits)
  show "MULTILINE \<in> set [MULTILINE, IGNORECASE]" by simp
  show "at_bol [MULTILINE, IGNORECASE] None" by (simp add: at_bol_def)
qed

lemma sub2_lines:
  assumes "plain_header K"
  shows "re_sub W (header_pattern2 K) header_replacement t [MULTILINE, IGNORECASE] =
     join_nl (map (line_sub (alone_match K) header_replacement) (split_nl t))"
  unfolding re_sub_def
proof (rule sub_lines)
  show "\<And>p s. \<not> at_bol [MULTILINE, IGNORECASE] p \<Longrightarrow>
           bt W [MULTILINE, IGNORECASE] (header_pattern2 K) p s [] [] = None"
    by (simp add: bt_header_pattern2)
  show "\<And>p l rest. at_bol [MULTILINE, IGNORECASE] p \<Longrightarrow> newline \<notin> set l \<Longrightarrow> rest = [] \<or> hd rest = newline \<Longrightarrow>
           bt W [MULTILINE, IGNORECASE] (header_pattern2 K) p (l @ rest) [] [] = alone_match K l"
    by (rule alone_match_line [OF assms])
  show "\<And>l m g. alone_match K l = Some (m, g) \<Longrightarrow> m \<noteq> [] \<and> length m \<le> length l"
    using assms by (auto simp: alone_match_def alone_line_def plain_header_def split: if_splits)
  show "MULTILINE \<in> set [MULTILINE, IGNORECASE]" by simp
  show "at_bol [MULTILINE, IGNORECASE] None" by (simp add: at_bol_def)
qed

lemma expand_header_Suc:
  "expand header_replacement [(Suc 0, k)] = py ''**'' @ k @ py ''**''"
  by (simp add: header_replacement_def)

lemma line_sub_colon:
  "line_sub (colon_match K) header_replacement l =
     (if colon_line K l then py ''**'' @ take (length K) l @ py ''**'' @ drop (Suc (length K)) l else l)"
proof (cases "colon_line K l")
  case True
  then have "Suc (length K) \<le> length l" by (simp add: colon_line_def prefix_ci_def py_def)
  then show ?thesis using True by (simp add: line_sub_def colon_match_def expand_header_Suc min_def)
next
  case False
  then show ?thesis by (simp add: line_sub_def colon_match_def)
qed

lemma line_sub_alone:
  "line_sub (alone_match K) header_replacement l =
     (if alone_line K l then py ''**'' @ l @ py ''**'' else l)"
  by (simp add: line_sub_def alone_match_def expand_header_Suc)

lemma header_line_no_newline:
  assumes "newline \<notin> set l"
  shows "newline \<notin> set (header_line K c l)"
proof -
  have "set (take (length K) l) \<subseteq> set l" "set (drop (Suc (length K)) l) \<subseteq> set l"
    by (simp_all add: set_take_subset set_drop_subset)
  then show ?thesis using assms by (auto simp: header_line_def py_def ch_def newline_def)
qed

lemma split_map_header_line:
  "split_nl (join_nl (map (header_line K c) (split_nl t))) = map (header_line K c) (split_nl t)"
  by (rule split_join_nl) (auto simp: split_nl_nonempty dest: split_nl_no_newline header_line_no_newline)

lemma header_subs_lines:
  assumes "plain_header K"
  shows "re_sub W (header_pattern1 K) header_replacement t [MULTILINE, IGNORECASE] =
           join_nl (map (header_line K True) (split_nl t))"
    and "re_sub W (header_pattern2 K) header_replacement t [MULTILINE, IGNORECASE] =
           join_nl (map (header_line K False) (split_nl t))"
proof -
  have 1: "line_sub (colon_match K) header_replacement = header_line K True"
    by (rule ext) (simp add: line_sub_colon header_line_def)
  have 2: "line_sub (alone_match K) header_replacement = header_line K False"
    by (rule ext) (simp add: line_sub_alone header_line_def)
  show "re_sub W (header_pattern1 K) header_replacement t [MULTILINE, IGNORECASE] =
           join_nl (map (header_line K True) (split_nl t))"
    unfolding sub1_lines [OF assms] 1 ..
  show "re_sub W (header_pattern2 K) header_replacement t [MULTILINE, IGNORECASE] =
           join_nl (map (header_line K False) (split_nl t))"
    unfolding sub2_lines [OF assms] 2 ..
qed

lemma colon_line_changes:
  assumes "plain_header K" "colon_line K l"
  shows "header_line K True l \<noteq> l"
proof
  assume e: "header_line K True l = l"
  from assms(1) obtain a K' where K: "K = a # K'" by (cases K) (auto simp: plain_header_def)
  from assms(2) have p: "prefix_ci (py K @ py '':'') l" by (simp add: colon_line_def)
  then obtain c l' where l: "l = c # l'" by (cases l) (auto simp: prefix_ci_def K py_def)
  from p have "lower_fold c = lower_fold (ch a)" by (simp add: prefix_ci_def K py_def l)
  moreover have "lower_fold (ch a) \<noteq> ch CHR ''*''" using assms(1) by (simp add: plain_header_def K py_def)
  moreover have "c = ch CHR ''*''" using e assms(2) l by (simp add: header_line_def py_def)
  ultimately show False by (simp add: lower_fold_def ch_def)
qed

lemma search_colon_iff:
  assumes "plain_header K" "\<not> wrapped K t"
  shows "re_search W (header_pattern1 K) t [MULTILINE, IGNORECASE] \<noteq> None
         \<longleftrightarrow> (\<exists>l \<in> set (split_nl t). colon_line K l)"
proof
  assume a: "re_search W (header_pattern1 K) t [MULTILINE, IGNORECASE] \<noteq> None"
  show "\<exists>l \<in> set (split_nl t). colon_line K l"
  proof (rule ccontr)
    assume "\<not> (\<exists>l \<in> set (split_nl t). colon_line K l)"
    then have "map (header_line K True) (split_nl t) = split_nl t"
      by (simp add: header_line_def map_idI)
    then have "re_sub W (header_pattern1 K) header_replacement t [MULTILINE, IGNORECASE] = t"
      by (simp add: header_subs_lines(1) [OF assms(1)] join_split_nl)
    moreover have "wrapped K (re_sub W (header_pattern1 K) header_replacement t [MULTILINE, IGNORECASE])"
      using sub_header_wrapped a by blast
    ultimately show False using assms(2) by simp
  qed
next
  assume "\<exists>l \<in> set (split_nl t). colon_line K l"
  then obtain l where l: "l \<in> set (split_nl t)" "colon_line K l" by blast
  show "re_search W (header_pattern1 K) t [MULTILINE, IGNORECASE] \<noteq> None"
  proof
    assume "re_search W (header_pattern1 K) t [MULTILINE, IGNORECASE] = None"
    then have "re_sub W (header_pattern1 K) header_replacement t [MULTILINE, IGNORECASE] = t"
      by (rule re_sub_no_match)
    then have "split_nl (join_nl (map (header_line K True) (split_nl t))) = split_nl t"
      by (simp add: header_subs_lines(1) [OF assms(1)])
    then have "map (header_line K True) (split_nl t) = split_nl t"
      by (simp only: split_map_header_line)
    then have "header_line K True l = l" using l(1) by (metis map_eq_conv list.map_id0 id_apply)
    then show False using colon_line_changes [OF assms(1) l(2)] by simp
  qed
qed

lemma format_header_lines:
  assumes "plain_header K" "\<not> wrapped K t"
  shows "split_nl (format_header W t K) =
     map (header_line K (\<exists>l \<in> set (split_nl t). colon_line K l)) (split_nl t)"
proof (cases "\<exists>l \<in> set (split_nl t). colon_line K l")
  case True
  then have "format_header W t K = join_nl (map (header_line K True) (split_nl t))"
    using search_colon_iff [OF assms, of W] assms(2)
    by (simp add: format_header_eq header_subs_lines(1) [OF assms(1)])
  then show ?thesis using True by (simp add: split_map_header_line)
next
  case False
  then have "format_header W t K = join_nl (map (header_line K False) (split_nl t))"
    using search_colon_iff [OF assms, of W] assms(2)
    by (simp add: format_header_eq header_subs_lines(2) [OF assms(1)])
  then show ?thesis using False by (simp add: split_map_header_line)
qed

lemma format_header_wrapped: "wrapped K t \<Longrightarrow> format_header W t K = t"
  by (simp add: format_header_eq)

lemma header_line_starts:
  assumes "colon_line K l \<or> alone_line K l"
  shows "prefix_ci (py K) l"
proof -
  { assume "colon_line K l"
    then have "prefix_ci (py K @ py '':'') l" by (simp add: colon_line_def)
    from prefix_ci_take [OF this]
    have "length (take (length (py K)) l) = length (py K)"
      and "map lower_fold (take (length (py K)) l) = map lower_fold (py K)" by simp_all
    moreover from this(1) have "length (py K) \<le> length l" by (simp add: min_def split: if_splits)
    ultimately have ?thesis unfolding prefix_ci_def by simp }
  moreover
  { assume "alone_line K l"
    then have ?thesis by (simp add: alone_line_def prefix_ci_def) }
  ultimately show ?thesis using assms by blast
qed

lemma prefix_ci_nth:
  assumes "prefix_ci w l" "i < length w"
  shows "lower_fold (l ! i) = lower_fold (w ! i)"
proof -
  from assms(1) have le: "length w \<le> length l"
    and m: "map lower_fold (take (length w) l) = map lower_fold w" by (simp_all add: prefix_ci_def)
  have "lower_fold (l ! i) = map lower_fold (take (length w) l) ! i" using assms(2) le by simp
  also have "\<dots> = lower_fold (w ! i)" unfolding m using assms(2) by simp
  finally show ?thesis .
qed

lemma header_key:
  assumes "K \<in> set section_headers"
  shows "K = (if lower_fold (py K ! 0) = 97
              then (if lower_fold (py K ! 1) = 116 then ''Attendees'' else ''Action Items'')
              else (if lower_fold (py K ! 0) = 103 then ''General Notes'' else ''Personal''))"
proof -
  have c: "lower_fold (ch CHR ''A'') = 97" "lower_fold (ch CHR ''t'') = 116" "lower_fold (ch CHR ''c'') = 99"
    "lower_fold (ch CHR ''G'') = 103" "lower_fold (ch CHR ''e'') = 101" "lower_fold (ch CHR ''P'') = 112"
    by (simp_all add: ch_def lower_fold_def)
  have n: "py ''Attendees'' ! 0 = ch CHR ''A''" "py ''Attendees'' ! 1 = ch CHR ''t''"
    "py ''Action Items'' ! 0 = ch CHR ''A''" "py ''Action Items'' ! 1 = ch CHR ''c''"
    "py ''General Notes'' ! 0 = ch CHR ''G''" "py ''General Notes'' ! 1 = ch CHR ''e''"
    "py ''Personal'' ! 0 = ch CHR ''P''" "py ''Personal'' ! 1 = ch CHR ''e''"
    by (simp_all add: py_def)
  from assms have "K = ''Attendees'' \<or> K = ''Action Items'' \<or> K = ''General Notes'' \<or> K = ''Personal''"
    by (simp add: section_headers_def)
  then show ?thesis
  proof (elim disjE)
    assume "K = ''Attendees''" then show ?thesis by (simp only: n c) simp
  next
    assume "K = ''Action Items''" then show ?thesis by (simp only: n c) simp
  next
    assume "K = ''General Notes''" then show ?thesis by (simp only: n c) simp
  next
    assume "K = ''Personal''" then show ?thesis by (simp only: n c) simp
  qed
qed

lemma header_key_distinct:
  assumes "K \<in> set section_headers" "K' \<in> set section_headers"
    and "lower_fold (py K ! 0) = lower_fold (py K' ! 0)" "lower_fold (py K ! 1) = lower_fold (py K' ! 1)"
  shows "K = K'"
proof -
  have "K = (if lower_fold (py K ! 0) = 97
              then (if lower_fold (py K ! 1) = 116 then ''Attendees'' else ''Action Items'')
              else (if lower_fold (py K ! 0) = 103 then ''General Notes'' else ''Personal''))"
    using assms(1) by (rule header_key)
  also have "\<dots> = (if lower_fold (py K' ! 0) = 97
              then (if lower_fold (py K' ! 1) = 116 then ''Attendees'' else ''Action Items'')
              else (if lower_fold (py K' ! 0) = 103 then ''General Notes'' else ''Personal''))"
    unfolding assms(3,4) ..
  also have "\<dots> = K'" using assms(2) by (rule header_key [symmetric])
  finally show ?thesis .
qed

lemma header_lines_distinct:
  assumes "K \<in> set section_headers" "K' \<in> set section_headers" "K \<noteq> K'"
    and "prefix_ci (py K) l"
  shows "\<not> prefix_ci (py K') l"
proof
  assume b: "prefix_ci (py K') l"
  have "plain_header K" "plain_header K'" using assms(1,2) by (simp_all add: section_headers_plain)
  have lk: "0 < length (py K)" "0 < length (py K')" "1 < length (py K)" "1 < length (py K')"
    using assms(1,2) by (auto simp: section_headers_def)
  have 0: "lower_fold (py K ! 0) = lower_fold (py K' ! 0)"
    using prefix_ci_nth [OF assms(4) lk(1)] prefix_ci_nth [OF b lk(2)] by simp
  have 1: "lower_fold (py K ! 1) = lower_fold (py K' ! 1)"
    using prefix_ci_nth [OF assms(4) lk(3)] prefix_ci_nth [OF b lk(4)] by simp
  from header_key_distinct [OF assms(1,2) 0 1] assms(3) show False by simp
qed

lemma starred_not_header:
  assumes "plain_header K" "starred l"
  shows "\<not> prefix_ci (py K) l"
proof
  assume b: "prefix_ci (py K) l"
  from assms(1) have k: "K \<noteq> []" and s: "lower_fold (py K ! 0) \<noteq> ch CHR ''*''"
    by (auto simp: plain_header_def py_def)
  from prefix_ci_nth [OF b, of 0] k have "lower_fold (l ! 0) = lower_fold (py K ! 0)" by simp
  moreover have "l ! 0 = ch CHR ''*''" using assms(2) by (cases l) (auto simp: starred_def)
  moreover have "lower_fold (ch CHR ''*'') = ch CHR ''*''" by (simp add: lower_fold_def ch_def)
  ultimately show False using s by simp
qed

lemma header_line_same_or_starred: "header_line K b l = l \<or> starred (header_line K b l)"
  by (simp add: header_line_def starred_def py_def)

lemma header_line_other:
  "\<not> colon_line K l \<Longrightarrow> \<not> alone_line K l \<Longrightarrow> header_line K b l = l"
  by (simp add: header_line_def)

lemma format_header_line:
  assumes "plain_header K"
  shows "length (split_nl (format_header W u K)) = length (split_nl u)"
    and "i < length (split_nl u) \<Longrightarrow> split_nl (format_header W u K) ! i =
      (if wrapped K u then split_nl u ! i
       else header_line K (\<exists>l \<in> set (split_nl u). colon_line K l) (split_nl u ! i))"
proof -
  show "length (split_nl (format_header W u K)) = length (split_nl u)"
  proof (cases "wrapped K u")
    case True then show ?thesis by (simp add: format_header_wrapped)
  next
    case False then show ?thesis by (simp add: format_header_lines [OF assms])
  qed
  show "i < length (split_nl u) \<Longrightarrow> split_nl (format_header W u K) ! i =
      (if wrapped K u then split_nl u ! i
       else header_line K (\<exists>l \<in> set (split_nl u). colon_line K l) (split_nl u ! i))"
  proof (cases "wrapped K u")
    case True then show ?thesis by (simp add: format_header_wrapped)
  next
    case False
    assume "i < length (split_nl u)"
    then show ?thesis using False by (simp add: format_header_lines [OF assms])
  qed
qed

lemma fold_header_length:
  assumes "\<forall>K \<in> set Ks. plain_header K"
  shows "length (split_nl (foldl (format_header W) u Ks)) = length (split_nl u)"
  using assms by (induction Ks arbitrary: u) (simp_all add: format_header_line(1))

lemma fold_header_keep:
  assumes "\<forall>K \<in> set Ks. plain_header K" "i < length (split_nl u)"
    and "\<forall>K \<in> set Ks. \<not> colon_line K (split_nl u ! i) \<and> \<not> alone_line K (split_nl u ! i)"
  shows "split_nl (foldl (format_header W) u Ks) ! i = split_nl u ! i"
  using assms
proof (induction Ks arbitrary: u)
  case Nil
  then show ?case by simp
next
  case (Cons K Ks)
  have p: "plain_header K" using Cons.prems(1) by simp
  have 1: "split_nl (format_header W u K) ! i = split_nl u ! i"
    using format_header_line(2) [OF p Cons.prems(2), of W] Cons.prems(3) by (simp add: header_line_other)
  have 2: "i < length (split_nl (format_header W u K))"
    using Cons.prems(2) by (simp add: format_header_line(1) [OF p])
  have "split_nl (foldl (format_header W) (format_header W u K) Ks) ! i = split_nl (format_header W u K) ! i"
    using Cons.IH [OF _ 2] Cons.prems(1,3) 1 by simp
  then show ?case using 1 by simp
qed

lemma fold_header_same_or_starred:
  assumes "\<forall>K \<in> set Ks. plain_header K" "i < length (split_nl u)"
  shows "split_nl (foldl (format_header W) u Ks) ! i = split_nl u ! i
         \<or> starred (split_nl (foldl (format_header W) u Ks) ! i)"
  using assms
proof (induction Ks arbitrary: u)
  case Nil
  then show ?case by simp
next
  case (Cons K Ks)
  have p: "plain_header K" using Cons.prems(1) by simp
  have 1: "split_nl (format_header W u K) ! i = split_nl u ! i \<or> starred (split_nl (format_header W u K) ! i)"
    using format_header_line(2) [OF p Cons.prems(2), of W] header_line_same_or_starred
    by (cases "wrapped K u") simp_all
  have 2: "i < length (split_nl (format_header W u K))"
    using Cons.prems(2) by (simp add: format_header_line(1) [OF p])
  have "split_nl (foldl (format_header W) (format_header W u K) Ks) ! i = split_nl (format_header W u K) ! i
        \<or> starred (split_nl (foldl (format_header W) (format_header W u K) Ks) ! i)"
    using Cons.IH [OF _ 2] Cons.prems(1) by simp
  then show ?case using 1 by auto
qed

lemma split_headers:
  assumes "K \<in> set section_headers"
  shows "\<exists>post. section_headers = takeWhile (\<lambda>h. h \<noteq> K) section_headers @ K # post
           \<and> K \<notin> set (takeWhile (\<lambda>h. h \<noteq> K) section_headers) \<and> K \<notin> set post
           \<and> set post \<subseteq> set section_headers"
  using assms by (auto simp: section_headers_def)

lemma takeWhile_headers: "set (takeWhile (\<lambda>h. h \<noteq> K) section_headers) \<subseteq> set section_headers"
  by (auto dest: set_takeWhileD)

lemma contains_ci_barrier:
  assumes "w \<noteq> []" "\<forall>c \<in> set w. lower_fold c \<noteq> lower_fold b" "contains_ci w (a @ b # r)"
  shows "contains_ci w a \<or> contains_ci w r"
  using assms(3)
proof (induction a)
  case Nil
  have "\<not> prefix_ci w (b # r)"
  proof
    assume "prefix_ci w (b # r)"
    from prefix_ci_nth [OF this, of 0] assms(1) have "lower_fold b = lower_fold (w ! 0)" by simp
    moreover have "w ! 0 \<in> set w" using assms(1) by simp
    ultimately show False using assms(2) by metis
  qed
  then show ?case using Nil by simp
next
  case (Cons x a)
  from Cons.prems have "prefix_ci w ((x # a) @ b # r) \<or> contains_ci w (a @ b # r)" by simp
  then show ?case
  proof
    assume p: "prefix_ci w ((x # a) @ b # r)"
    show ?thesis
    proof (cases "length w \<le> length (x # a)")
      case True
      from prefix_ci_append_long [OF p True] have "contains_ci w (x # a)" by (rule prefix_ci_contains)
      then show ?thesis by simp
    next
      case False
      then have "length (x # a) < length w" by simp
      from prefix_ci_append_short [OF p this]
      have "lower_fold b = lower_fold (w ! length (x # a))" by simp
      moreover have "w ! length (x # a) \<in> set w" using False by simp
      ultimately show ?thesis using assms(2) by metis
    qed
  next
    assume "contains_ci w (a @ b # r)"
    from Cons.IH [OF this] show ?thesis by auto
  qed
qed

lemma contains_ci_join_line:
  assumes "w \<noteq> []" "\<forall>c \<in> set w. lower_fold c \<noteq> newline" "contains_ci w (join_nl ls)"
  shows "\<exists>l \<in> set ls. contains_ci w l"
  using assms(3)
proof (induction ls rule: join_nl.induct)
  case 1
  then show ?case using assms(1) by simp
next
  case (2 l)
  then show ?case by simp
next
  case (3 l v va)
  have "lower_fold newline = newline" by (simp add: lower_fold_def newline_def)
  then have "\<forall>c \<in> set w. lower_fold c \<noteq> lower_fold newline" using assms(2) by simp
  from contains_ci_barrier [OF assms(1) this, of l "join_nl (v # va)"] 3(2)
  have "contains_ci w l \<or> contains_ci w (join_nl (v # va))" by simp
  then show ?case using 3(1) by auto
qed

lemma contains_ci_line_join:
  assumes "l \<in> set ls" "contains_ci w l"
  shows "contains_ci w (join_nl ls)"
  using assms
proof (induction ls rule: join_nl.induct)
  case 1
  then show ?case by simp
next
  case (2 l')
  then show ?case by simp
next
  case (3 l' v va)
  show ?case
  proof (cases "l = l'")
    case True
    have "prefix l' (join_nl (l' # v # va))" by simp
    then show ?thesis using True 3(3) contains_ci_prefix by blast
  next
    case False
    then have "contains_ci w (join_nl (v # va))" using 3 by simp
    moreover have "suffix (join_nl (v # va)) (join_nl (l' # v # va))"
      by (simp add: suffix_def)
    ultimately show ?thesis using contains_ci_suffix by blast
  qed
qed

lemma contains_ci_drop:
  assumes "contains_ci (x # w) l" "\<forall>j < k. j < length l \<longrightarrow> lower_fold (l ! j) \<noteq> lower_fold x"
  shows "contains_ci (x # w) (drop k l)"
  using assms
proof (induction k arbitrary: l)
  case 0
  then show ?case by simp
next
  case (Suc k)
  show ?case
  proof (cases l)
    case Nil
    then show ?thesis using Suc.prems(1) by simp
  next
    case (Cons c l')
    have "\<not> prefix_ci (x # w) (c # l')"
    proof
      assume "prefix_ci (x # w) (c # l')"
      from prefix_ci_nth [OF this, of 0] have "lower_fold c = lower_fold x" by simp
      then show False using Suc.prems(2) Cons by auto
    qed
    then have 1: "contains_ci (x # w) l'" using Suc.prems(1) Cons by simp
    have 2: "\<forall>j < k. j < length l' \<longrightarrow> lower_fold (l' ! j) \<noteq> lower_fold x"
      using Suc.prems(2) Cons by auto
    from Suc.IH [OF 1 2] show ?thesis using Cons by simp
  qed
qed

lemma header_line_contains:
  assumes "plain_header K" "contains_ci (ch CHR ''*'' # w) l"
  shows "contains_ci (ch CHR ''*'' # w) (header_line K b l)"
proof -
  have st: "lower_fold (ch CHR ''*'') = ch CHR ''*''" by (simp add: lower_fold_def ch_def)
  { assume c: "colon_line K l"
    then have p: "prefix_ci (py K @ py '':'') l" by (simp add: colon_line_def)
    have "\<forall>j < Suc (length K). j < length l \<longrightarrow> lower_fold (l ! j) \<noteq> lower_fold (ch CHR ''*'')"
    proof (intro allI impI)
      fix j assume j: "j < Suc (length K)"
      then have "lower_fold (l ! j) = lower_fold ((py K @ py '':'') ! j)"
        using prefix_ci_nth [OF p, of j] by simp
      moreover have "(py K @ py '':'') ! j \<in> set (py K @ py '':'')"
        by (rule nth_mem) (use j in simp)
      then have "lower_fold ((py K @ py '':'') ! j) \<noteq> ch CHR ''*''"
        using assms(1) by (auto simp: plain_header_def py_def lower_fold_def ch_def)
      ultimately show "lower_fold (l ! j) \<noteq> lower_fold (ch CHR ''*'')" using st by simp
    qed
    from contains_ci_drop [OF assms(2) this]
    have "contains_ci (ch CHR ''*'' # w) (drop (Suc (length K)) l)" .
    moreover have "suffix (drop (Suc (length K)) l)
        (py ''**'' @ take (length K) l @ py ''**'' @ drop (Suc (length K)) l)"
      by (simp add: suffix_def)
    ultimately have "contains_ci (ch CHR ''*'' # w)
        (py ''**'' @ take (length K) l @ py ''**'' @ drop (Suc (length K)) l)"
      using contains_ci_suffix by blast }
  moreover
  { have "prefix l (l @ py ''**'')" by simp
    then have "contains_ci (ch CHR ''*'' # w) (l @ py ''**'')"
      using assms(2) contains_ci_prefix by blast
    moreover have "suffix (l @ py ''**'') (py ''**'' @ l @ py ''**'')" by (simp add: suffix_def)
    ultimately have "contains_ci (ch CHR ''*'' # w) (py ''**'' @ l @ py ''**'')"
      using contains_ci_suffix by blast }
  ultimately show ?thesis using assms(2) by (simp add: header_line_def)
qed

lemma wrapped_format_header:
  assumes "plain_header K" "plain_header K'" "wrapped K u"
  shows "wrapped K (format_header W u K')"
proof (cases "wrapped K' u")
  case True
  then show ?thesis using assms(3) by (simp add: format_header_wrapped)
next
  case False
  define w where "w = py ''*'' @ py K @ py ''**''"
  have e: "py ''**'' @ py K @ py ''**'' = ch CHR ''*'' # w" by (simp add: w_def py_def)
  have ne: "ch CHR ''*'' # w \<noteq> []" by simp
  have nn: "\<forall>c \<in> set (ch CHR ''*'' # w). lower_fold c \<noteq> newline"
    using assms(1) by (auto simp: w_def plain_header_def py_def lower_fold_def ch_def newline_def)
  define b where "b = (\<exists>l \<in> set (split_nl u). colon_line K' l)"
  have c: "contains_ci (ch CHR ''*'' # w) u" using assms(3) by (simp add: wrapped_def e)
  then have "contains_ci (ch CHR ''*'' # w) (join_nl (split_nl u))" by (simp add: join_split_nl)
  from contains_ci_join_line [OF ne nn this]
  obtain l where l: "l \<in> set (split_nl u)" "contains_ci (ch CHR ''*'' # w) l" by blast
  have "header_line K' b l \<in> set (map (header_line K' b) (split_nl u))" using l(1) by simp
  moreover have "contains_ci (ch CHR ''*'' # w) (header_line K' b l)"
    using assms(2) l(2) by (rule header_line_contains)
  ultimately have "contains_ci (ch CHR ''*'' # w) (join_nl (map (header_line K' b) (split_nl u)))"
    by (rule contains_ci_line_join)
  moreover have "format_header W u K' = join_nl (map (header_line K' b) (split_nl u))"
    using format_header_lines [OF assms(2) False, of W] join_split_nl [of "format_header W u K'"]
    unfolding b_def by simp
  ultimately show ?thesis by (simp add: wrapped_def e)
qed

lemma wrapped_fold_header:
  assumes "plain_header K" "\<forall>K' \<in> set Ks. plain_header K'" "wrapped K u"
  shows "wrapped K (foldl (format_header W) u Ks)"
  using assms(2,3)
proof (induction Ks arbitrary: u)
  case Nil
  then show ?case by simp
next
  case (Cons a Ks)
  have "wrapped K (format_header W u a)"
    using wrapped_format_header [OF assms(1) _ Cons.prems(2)] Cons.prems(1) by simp
  then show ?case using Cons.IH Cons.prems(1) by simp
qed

lemma not_header_line:
  "\<not> prefix_ci (py K) l \<Longrightarrow> \<not> colon_line K l \<and> \<not> alone_line K l"
  using header_line_starts by blast

lemma headers_length:
  "length (split_nl (format_section_headers W t)) = length (split_nl t)"
  unfolding format_section_headers_def
  by (rule fold_header_length) (simp add: section_headers_plain)

lemma headers_other:
  assumes "i < length (split_nl t)"
    and "\<forall>K \<in> set section_headers. \<not> colon_line K (split_nl t ! i) \<and> \<not> alone_line K (split_nl t ! i)"
  shows "split_nl (format_section_headers W t) ! i = split_nl t ! i"
  unfolding format_section_headers_def
  by (rule fold_header_keep [OF _ assms]) (simp add: section_headers_plain)

lemma headers_lines:
  assumes K: "K \<in> set section_headers" and i: "i < length (split_nl t)"
    and kl: "colon_line K (split_nl t ! i) \<or> alone_line K (split_nl t ! i)"
  shows "split_nl (format_section_headers W t) ! i =
     (if wrapped K (text_before W t K) then split_nl t ! i
      else header_line K (\<exists>l \<in> set (split_nl t). colon_line K l) (split_nl t ! i))"
proof -
  define pre where "pre = takeWhile (\<lambda>h. h \<noteq> K) section_headers"
  from split_headers [OF K] obtain post where sh: "section_headers = pre @ K # post"
    and npre: "K \<notin> set pre" and npost: "K \<notin> set post" and spost: "set post \<subseteq> set section_headers"
    unfolding pre_def by blast
  have spre: "set pre \<subseteq> set section_headers" unfolding pre_def by (rule takeWhile_headers)
  have pK: "plain_header K" using K by (rule section_headers_plain)
  have ppre: "\<forall>K' \<in> set pre. plain_header K'" using spre section_headers_plain by blast
  have ppost: "\<forall>K' \<in> set post. plain_header K'" using spost section_headers_plain by blast
  define u where "u = foldl (format_header W) t pre"
  define v where "v = format_header W u K"
  have tb: "text_before W t K = u" by (simp add: text_before_def u_def pre_def)
  have "foldl (format_header W) t section_headers = foldl (format_header W) t (pre @ K # post)"
    by (simp only: sh)
  then have out: "format_section_headers W t = foldl (format_header W) v post"
    by (simp add: format_section_headers_def u_def v_def)
  have lu: "length (split_nl u) = length (split_nl t)"
    unfolding u_def using ppre by (rule fold_header_length)
  have lv: "length (split_nl v) = length (split_nl u)"
    unfolding v_def using pK by (rule format_header_line(1))
  have other: "\<not> colon_line K' l \<and> \<not> alone_line K' l"
    if "prefix_ci (py K) l" "K' \<in> set section_headers" "K' \<noteq> K" for K' l
    using header_lines_distinct [OF K that(2) _ that(1)] that(3) not_header_line by blast
  have U1: "split_nl u ! j = split_nl t ! j"
    if "j < length (split_nl t)" "prefix_ci (py K) (split_nl t ! j)" for j
    unfolding u_def
  proof (rule fold_header_keep [OF ppre that(1)], intro ballI)
    fix K' assume "K' \<in> set pre"
    then have "K' \<in> set section_headers" "K' \<noteq> K" using spre npre by auto
    from other [OF that(2) this]
    show "\<not> colon_line K' (split_nl t ! j) \<and> \<not> alone_line K' (split_nl t ! j)" .
  qed
  have CE: "(\<exists>l \<in> set (split_nl u). colon_line K l) = (\<exists>l \<in> set (split_nl t). colon_line K l)"
  proof
    assume "\<exists>l \<in> set (split_nl u). colon_line K l"
    then obtain j where j: "j < length (split_nl u)" "colon_line K (split_nl u ! j)"
      by (auto simp: in_set_conv_nth)
    have jt: "j < length (split_nl t)" using j(1) lu by simp
    have pj: "prefix_ci (py K) (split_nl u ! j)" using j(2) header_line_starts by blast
    have "split_nl u ! j = split_nl t ! j \<or> starred (split_nl u ! j)"
      unfolding u_def using ppre jt by (rule fold_header_same_or_starred)
    moreover have "\<not> starred (split_nl u ! j)" using starred_not_header [OF pK] pj by blast
    ultimately have "colon_line K (split_nl t ! j)" using j(2) by simp
    then show "\<exists>l \<in> set (split_nl t). colon_line K l" using jt nth_mem by blast
  next
    assume "\<exists>l \<in> set (split_nl t). colon_line K l"
    then obtain j where j: "j < length (split_nl t)" "colon_line K (split_nl t ! j)"
      by (auto simp: in_set_conv_nth)
    have "prefix_ci (py K) (split_nl t ! j)" using j(2) header_line_starts by blast
    from U1 [OF j(1) this] have "colon_line K (split_nl u ! j)" using j(2) by simp
    moreover have "j < length (split_nl u)" using j(1) lu by simp
    ultimately show "\<exists>l \<in> set (split_nl u). colon_line K l" using nth_mem by blast
  qed
  have pi: "prefix_ci (py K) (split_nl t ! i)" using kl header_line_starts by blast
  have ui: "split_nl u ! i = split_nl t ! i" using U1 [OF i pi] .
  have iu: "i < length (split_nl u)" using i lu by simp
  have V: "split_nl v ! i =
     (if wrapped K u then split_nl t ! i
      else header_line K (\<exists>l \<in> set (split_nl t). colon_line K l) (split_nl t ! i))"
    unfolding v_def using format_header_line(2) [OF pK iu, of W] by (simp add: CE ui)
  have iv: "i < length (split_nl v)" using iu lv by simp
  have "split_nl (foldl (format_header W) v post) ! i = split_nl v ! i"
  proof (rule fold_header_keep [OF ppost iv], intro ballI)
    fix K' assume k': "K' \<in> set post"
    then have k'': "K' \<in> set section_headers" "K' \<noteq> K" using spost npost by auto
    have "split_nl v ! i = split_nl t ! i \<or> starred (split_nl v ! i)"
      unfolding V using header_line_same_or_starred by simp
    then show "\<not> colon_line K' (split_nl v ! i) \<and> \<not> alone_line K' (split_nl v ! i)"
    proof
      assume "split_nl v ! i = split_nl t ! i"
      then show ?thesis using other [OF pi k''] by simp
    next
      assume "starred (split_nl v ! i)"
      from starred_not_header [OF _ this, of K'] ppost k' not_header_line show ?thesis by blast
    qed
  qed
  then show ?thesis unfolding out V tb .
qed

lemma text_before_first: "text_before W t ''Attendees'' = t"
  by (simp add: text_before_def section_headers_def)

lemma wrapped_text_before:
  assumes "K \<in> set section_headers" "wrapped K t"
  shows "wrapped K (text_before W t K)"
  unfolding text_before_def
proof (rule wrapped_fold_header [OF _ _ assms(2)])
  show "plain_header K" using assms(1) by (rule section_headers_plain)
  show "\<forall>K' \<in> set (takeWhile (\<lambda>h. h \<noteq> K) section_headers). plain_header K'"
    using takeWhile_headers section_headers_plain by blast
qed

lemma alone_not_colon: "alone_line K l \<Longrightarrow> \<not> colon_line K l"
  by (simp add: alone_line_def colon_line_def prefix_ci_def py_def)

text \<open>
  Claim C2 expects \<open>**Attendees**: John, Mary\<close> for the line \<open>Attendees: John, Mary\<close>.
  The first pattern of \<open>_format_section_headers\<close> matches the colon too and the
  replacement \<open>**\1**\<close> does not put it back.
\<close>

theorem format_section_headers_drops_colon:
  "format_section_headers ascii_only (py ''Attendees: John, Mary'') = py ''**Attendees** John, Mary''
   \<and> \<not> contains_ci (py ''**Attendees**: John, Mary'')
         (format_section_headers ascii_only (py ''Attendees: John, Mary''))
   \<and> normalize_text ascii_only (py ''Attendees: John, Mary'') = py ''**Attendees** John, Mary\<newline>\<newline>Michael''"
proof -
  have 1: "format_section_headers ascii_only (py ''Attendees: John, Mary'') = py ''**Attendees** John, Mary''"
    by (simp add: ev)
  have 2: "\<not> contains_ci (py ''**Attendees**: John, Mary'') (py ''**Attendees** John, Mary'')"
    by (simp add: py_def ch_def prefix_ci_def lower_fold_def)
  have 3: "normalize_text ascii_only (py ''Attendees: John, Mary'') = py ''**Attendees** John, Mary\<newline>\<newline>Michael''"
    by (simp add: ev)
  from 1 2 3 show ?thesis by simp
qed







end
